theory Spec2Isabelle
  imports Complex_Main
begin

section \<open>The timed presentation of \<open>src/app/page.tsx\<close>\<close>

text \<open>
  The component \<open>Home\<close> plays a thirty second scripted animation. Times are the
  milliseconds of \<open>performance.now()\<close> and of the timer delays; JavaScript numbers are
  modelled as real numbers (no rounding), and \<open>Math.random()\<close> as a stream of reals
  that the caller supplies.
\<close>

subsection \<open>Static configuration\<close>

datatype Phase = Idle | Intro | Hint | Manifest | Escalate | Scare | Aftermath

definition STORY_DURATION :: real where
  "STORY_DURATION = 30000"

definition PHASE_SEQUENCE :: "(real \<times> Phase) list" where
  "PHASE_SEQUENCE =
     [(0, Intro), (6800, Hint), (13600, Manifest), (19800, Escalate), (24400, Scare),
      (STORY_DURATION, Aftermath)]"

definition JUMP_CUT_MOMENTS :: "real list" where
  "JUMP_CUT_MOMENTS = [6200, 12800, 20750, 24400]"

subsection \<open>What one frame paints\<close>

text \<open>
  The local values of \<open>draw\<close>, each as a function of the values it is computed from:
  \<open>elapsed\<close> is \<open>now - startTimeRef.current\<close>, \<open>phaseName\<close> is \<open>phaseRef.current\<close>,
  \<open>width\<close> and \<open>height\<close> are the canvas size divided by the device pixel ratio.
\<close>

definition clamped :: "real \<Rightarrow> real" where
  "clamped elapsed = min elapsed STORY_DURATION"

definition progressValue :: "real \<Rightarrow> real" where
  "progressValue elapsed = clamped elapsed / STORY_DURATION"

definition zoomBase :: "real \<Rightarrow> real" where
  "zoomBase elapsed = 1.12 + progressValue elapsed * 0.45"

definition boostAt :: "real \<Rightarrow> real \<Rightarrow> real" where
  "boostAt c moment = 0.3 + (1 - \<bar>c - moment\<bar> / 220) * 0.35"

definition boostLoop :: "real \<Rightarrow> real list \<Rightarrow> real \<Rightarrow> real" where
  "boostLoop c moments zb0 =
     fold (\<lambda>moment zb. if \<bar>c - moment\<bar> < 220 then max zb (boostAt c moment) else zb)
       moments zb0"

definition zoomBoost :: "real \<Rightarrow> real" where
  "zoomBoost elapsed = boostLoop (clamped elapsed) JUMP_CUT_MOMENTS 0"

definition zoom :: "real \<Rightarrow> real" where
  "zoom elapsed = zoomBase elapsed + zoomBoost elapsed"

definition shakeFactor :: "Phase \<Rightarrow> real" where
  "shakeFactor phaseName =
     (if phaseName = Scare then 12
      else if phaseName = Escalate then 6
      else if phaseName = Manifest then 3.5
      else 1.5)"

definition xShake :: "real \<Rightarrow> Phase \<Rightarrow> real" where
  "xShake now phaseName = sin (now * 0.012) * shakeFactor phaseName"

definition yShake :: "real \<Rightarrow> Phase \<Rightarrow> real" where
  "yShake now phaseName = cos (now * 0.009) * shakeFactor phaseName * 0.6"

definition rock :: "real \<Rightarrow> Phase \<Rightarrow> real" where
  "rock now phaseName =
     sin (now * 0.0025) *
       (if phaseName = Scare then 14 else if phaseName = Escalate then 9 else 6)"

text \<open>The child's drawing on the wall.\<close>

definition wallAlpha :: "real \<Rightarrow> real" where
  "wallAlpha elapsed = 0.12 + progressValue elapsed * 0.25"

definition eyeStrokeStyle :: "Phase \<Rightarrow> string" where
  "eyeStrokeStyle phaseName =
     (if phaseName = Hint \<or> phaseName = Manifest \<or> phaseName = Escalate \<or> phaseName = Scare
      then ''rgba(211, 43, 55, 0.75)''
      else ''rgba(211, 43, 55, 0.35)'')"

definition eyeLineWidth :: "Phase \<Rightarrow> real" where
  "eyeLineWidth phaseName = (if phaseName = Scare then 7 else 5)"

definition eyeOffset :: "Phase \<Rightarrow> real" where
  "eyeOffset phaseName =
     (if phaseName = Scare then 12 else if phaseName = Escalate then 9 else 6)"

text \<open>
  The glitch bars. Every bar draws five random numbers, in the order of the source:
  alpha, width, height, x, y; \<open>rnd n\<close> is the result of the \<open>n\<close>-th call of
  \<open>Math.random()\<close> in the frame.
\<close>

record bar =
  alpha :: real
  barX :: real
  barY :: real
  barWidth :: real
  barHeight :: real

definition viewSize :: "nat \<Rightarrow> real \<Rightarrow> real" where
  "viewSize canvasPixels devicePixelRatio =
     real canvasPixels / (if devicePixelRatio = 0 then 1 else devicePixelRatio)"

definition strength :: "Phase \<Rightarrow> real" where
  "strength phaseName =
     (if phaseName = Scare then 0.48 else if phaseName = Escalate then 0.3 else 0.18)"

definition bars :: "Phase \<Rightarrow> nat" where
  "bars phaseName = (if phaseName = Scare then 28 else 18)"

definition glitchBar :: "Phase \<Rightarrow> real \<Rightarrow> real \<Rightarrow> (nat \<Rightarrow> real) \<Rightarrow> nat \<Rightarrow> bar" where
  "glitchBar phaseName width height rnd i =
     (let a = rnd (5 * i) * strength phaseName;
          bw = rnd (5 * i + 1) * width * 0.12;
          bh = 3 + rnd (5 * i + 2) * 3;
          bx = rnd (5 * i + 3) * (width - bw);
          by = rnd (5 * i + 4) * height
      in \<lparr>alpha = a, barX = bx, barY = by, barWidth = bw, barHeight = bh\<rparr>)"

definition glitchBars :: "Phase \<Rightarrow> real \<Rightarrow> real \<Rightarrow> (nat \<Rightarrow> real) \<Rightarrow> bar list" where
  "glitchBars phaseName width height rnd =
     (if phaseName = Manifest \<or> phaseName = Escalate \<or> phaseName = Scare
      then map (glitchBar phaseName width height rnd) [0..<bars phaseName]
      else [])"

text \<open>The pair of eyes of the climax: its \<open>globalAlpha\<close>, when it is drawn.\<close>

definition climaxEyes :: "Phase \<Rightarrow> real option" where
  "climaxEyes phaseName =
     (if phaseName = Scare \<or> phaseName = Aftermath
      then Some (if phaseName = Aftermath then 0.85 else 1)
      else None)"

subsection \<open>Audio director\<close>





subsection \<open>The component and the browser\<close>

text \<open>
  The state of the component (React state and refs) together with what the browser
  holds for it: the pending timers of \<open>window.setTimeout\<close>, the pending requests of
  \<open>requestAnimationFrame\<close> and the audio contexts that are open. A timer callback of
  \<open>beginStory\<close> either sets a phase or is the finish timeout.
\<close>

datatype callback = SetPhase Phase | Finish

record timer =
  tid :: nat
  due :: real
  cb :: callback

record home =
  phase :: Phase
  started :: bool
  runKey :: nat
  progress :: real
  isComplete :: bool
  startTimeRef :: real
  animationRef :: "nat option"
  phaseRef :: Phase
  timeoutsRef :: "nat list"
  audioStateRef :: "nat option"
  lastProgressUpdate :: real
  timers :: "timer list"
  nextTimer :: nat
  frames :: "nat list"
  nextFrame :: nat
  contexts :: "nat list"
  nextContext :: nat

definition mounted :: home where
  "mounted =
     \<lparr>phase = Idle, started = False, runKey = 0, progress = 0, isComplete = False,
      startTimeRef = 0, animationRef = None, phaseRef = Idle, timeoutsRef = [],
      audioStateRef = None, lastProgressUpdate = 0,
      timers = [], nextTimer = 1, frames = [], nextFrame = 1,
      contexts = [], nextContext = 1\<rparr>"

text \<open>The browser: timers and animation frame requests, with fresh handles.\<close>

definition setTimeout :: "callback \<Rightarrow> real \<Rightarrow> real \<Rightarrow> home \<Rightarrow> nat \<times> home" where
  "setTimeout c delay now s =
     (nextTimer s,
      s\<lparr>timers := timers s @ [\<lparr>tid = nextTimer s, due = now + delay, cb = c\<rparr>],
        nextTimer := Suc (nextTimer s)\<rparr>)"

definition clearTimeout :: "nat \<Rightarrow> home \<Rightarrow> home" where
  "clearTimeout timeoutId s = s\<lparr>timers := filter (\<lambda>t. tid t \<noteq> timeoutId) (timers s)\<rparr>"

definition requestAnimationFrame :: "home \<Rightarrow> nat \<times> home" where
  "requestAnimationFrame s =
     (nextFrame s, s\<lparr>frames := frames s @ [nextFrame s], nextFrame := Suc (nextFrame s)\<rparr>)"

definition cancelAnimationFrame :: "nat \<Rightarrow> home \<Rightarrow> home" where
  "cancelAnimationFrame handle s = s\<lparr>frames := removeAll handle (frames s)\<rparr>"

text \<open>
  \<open>timeoutsRef.current.forEach (clearTimeout); timeoutsRef.current = []\<close>, as it
  stands in \<open>beginStory\<close>, in the effect of \<open>isComplete\<close> and in the unmount cleanup.
\<close>

definition clearTimeouts :: "home \<Rightarrow> home" where
  "clearTimeouts s = (fold clearTimeout (timeoutsRef s) s)\<lparr>timeoutsRef := []\<rparr>"

text \<open>
  \<open>setIsComplete\<close> with the effect that depends on \<open>isComplete\<close>: React runs the effect
  when the value has changed, and the effect clears the timeouts when the flag is true.
\<close>

definition setIsComplete :: "bool \<Rightarrow> home \<Rightarrow> home" where
  "setIsComplete b s =
     (if isComplete s = b then s
      else if b then clearTimeouts (s\<lparr>isComplete := b\<rparr>)
      else s\<lparr>isComplete := b\<rparr>)"

text \<open>\<open>setPhase\<close> together with the write to \<open>phaseRef.current\<close> that goes with it.\<close>

definition setPhase :: "Phase \<Rightarrow> home \<Rightarrow> home" where
  "setPhase p s = s\<lparr>phase := p, phaseRef := p\<rparr>"

text \<open>
  \<open>startAudio\<close>: a running audio graph is stopped and its context closed, then a
  new context is built and stored in \<open>audioStateRef\<close>.
\<close>

definition stopAudio :: "home \<Rightarrow> home" where
  "stopAudio s =
     (case audioStateRef s of
        None \<Rightarrow> s
      | Some c \<Rightarrow> s\<lparr>contexts := removeAll c (contexts s), audioStateRef := None\<rparr>)"

definition newAudio :: "home \<Rightarrow> home" where
  "newAudio s =
     s\<lparr>contexts := contexts s @ [nextContext s], nextContext := Suc (nextContext s),
       audioStateRef := Some (nextContext s)\<rparr>"

definition startAudio :: "home \<Rightarrow> home" where
  "startAudio s = newAudio (stopAudio s)"

text \<open>\<open>beginStory\<close>, called at time \<open>now\<close>.\<close>

definition schedule :: "callback \<Rightarrow> real \<Rightarrow> real \<Rightarrow> home \<Rightarrow> home" where
  "schedule c delay now s =
     (let (timeoutId, s') = setTimeout c delay now s
      in s'\<lparr>timeoutsRef := timeoutsRef s' @ [timeoutId]\<rparr>)"

definition resetRun :: "home \<Rightarrow> home" where
  "resetRun s =
     setIsComplete False
       ((setPhase Intro s)\<lparr>started := True, runKey := Suc (runKey s), progress := 0\<rparr>)"

definition scheduleRun :: "real \<Rightarrow> home \<Rightarrow> home" where
  "scheduleRun now s =
     schedule Finish (STORY_DURATION + 60) now
       (fold (\<lambda>(offset, nextPhase). schedule (SetPhase nextPhase) offset now) PHASE_SEQUENCE
          (clearTimeouts s))"

definition beginStory :: "real \<Rightarrow> home \<Rightarrow> home" where
  "beginStory now s = scheduleRun now (resetRun (startAudio s))"

text \<open>
  The effect that depends on \<open>runKey\<close>, run by React at time \<open>now\<close> after the render
  that follows \<open>beginStory\<close>: first the cleanup of the previous effect, then the body,
  which records the start time and requests the first frame. The canvas and its
  drawing context are taken to exist.
\<close>

definition runKeyCleanup :: "home \<Rightarrow> home" where
  "runKeyCleanup s =
     (case animationRef s of
        None \<Rightarrow> s
      | Some handle \<Rightarrow>
          if handle = 0 then s
          else (cancelAnimationFrame handle s)\<lparr>animationRef := None\<rparr>)"

definition runKeyEffect :: "real \<Rightarrow> home \<Rightarrow> home" where
  "runKeyEffect now s =
     (let s1 = runKeyCleanup s in
      if runKey s1 = 0 then s1
      else let (handle, s2) = requestAnimationFrame (s1\<lparr>startTimeRef := now\<rparr>)
           in s2\<lparr>animationRef := Some handle\<rparr>)"

text \<open>
  The state changes of \<open>draw\<close>; what it paints is given by the functions of the
  previous subsection.
\<close>

definition draw :: "real \<Rightarrow> home \<Rightarrow> home" where
  "draw now s =
     (let elapsed = now - startTimeRef s;
          s1 = (if now - lastProgressUpdate s > 120
                then s\<lparr>progress := progressValue elapsed, lastProgressUpdate := now\<rparr>
                else s)
      in if clamped elapsed < STORY_DURATION
         then let (handle, s2) = requestAnimationFrame s1 in s2\<lparr>animationRef := Some handle\<rparr>
         else setIsComplete True s1)"

text \<open>
  The browser runs, at a frame at time \<open>now\<close>, the callbacks that were requested
  before the frame and have not been cancelled; each of them is \<open>draw\<close>. A request
  whose callback runs is no longer pending: its handle leaves the list first.
\<close>

fun runCallbacks :: "real \<Rightarrow> nat list \<Rightarrow> home \<Rightarrow> home" where
  "runCallbacks now [] s = s"
| "runCallbacks now (handle # handles) s =
     runCallbacks now handles
       (if handle \<in> set (frames s) then draw now (cancelAnimationFrame handle s) else s)"

definition runFrame :: "real \<Rightarrow> home \<Rightarrow> home" where
  "runFrame now s = runCallbacks now (frames s) s"

text \<open>
  The browser never runs a timer before it is due, and it runs the pending timers in
  the order of their due times (among timers due at the same time, the one set first).
  So the timer that runs next, at a time \<open>now\<close>, is the first of the pending timers
  that are due, if there is one. A timer that has run is no longer pending.
\<close>

definition nextDue :: "real \<Rightarrow> timer list \<Rightarrow> timer option" where
  "nextDue now ts =
     (case filter (\<lambda>t. due t \<le> now) ts of
        [] \<Rightarrow> None
      | d # ds \<Rightarrow> Some (foldl (\<lambda>best t. if due t < due best then t else best) d ds))"

definition runTimer :: "timer \<Rightarrow> home \<Rightarrow> home" where
  "runTimer t s =
     (let s1 = clearTimeout (tid t) s in
      case cb t of
        SetPhase nextPhase \<Rightarrow> setPhase nextPhase s1
      | Finish \<Rightarrow> setIsComplete True s1)"

function fireDue :: "real \<Rightarrow> home \<Rightarrow> home" where
  "fireDue now s =
     (case nextDue now (timers s) of
        None \<Rightarrow> s
      | Some t \<Rightarrow> fireDue now (runTimer t s))"
  by pat_completeness auto
termination
proof (relation "measure (\<lambda>(now, s). length (timers s))")
  show "wf (measure (\<lambda>(now, s). length (timers s)))" by simp
next
  fix now :: real and s :: home and t :: timer
  assume nd: "nextDue now (timers s) = Some t"
  have pick: "foldl (\<lambda>best t. if due t < due best then t else best) d ds \<in> insert d (set ds)"
    for d :: timer and ds
    by (induction ds arbitrary: d) auto
  from nd obtain d ds where f: "filter (\<lambda>t. due t \<le> now) (timers s) = d # ds"
    and t: "t = foldl (\<lambda>best t. if due t < due best then t else best) d ds"
    by (auto simp: nextDue_def split: list.splits)
  have "t \<in> set (d # ds)" using pick [of d ds] t by simp
  then have "t \<in> set (timers s)" unfolding f [symmetric] by simp
  then have less: "length (filter (\<lambda>u. tid u \<noteq> tid t) (timers s)) < length (timers s)"
    by (intro length_filter_less [of t]) auto
  have cl: "length (timers (fold clearTimeout ids u)) \<le> length (timers u)" for ids u
  proof (induction ids arbitrary: u)
    case Nil
    show ?case by simp
  next
    case (Cons i ids)
    have "length (timers (fold clearTimeout ids (clearTimeout i u))) \<le> length (timers (clearTimeout i u))"
      by (rule Cons.IH)
    also have "\<dots> \<le> length (timers u)" by (simp add: clearTimeout_def)
    finally show ?case by simp
  qed
  have "length (timers (runTimer t s)) \<le> length (timers (clearTimeout (tid t) s))"
    using cl [of "timeoutsRef s" "clearTimeout (tid t) s\<lparr>isComplete := True\<rparr>"]
    by (cases "cb t")
      (simp_all add: runTimer_def setPhase_def setIsComplete_def clearTimeouts_def clearTimeout_def Let_def)
  also have "\<dots> < length (timers s)" using less by (simp add: clearTimeout_def)
  finally show "((now, runTimer t s), (now, s)) \<in> measure (\<lambda>(now, s). length (timers s))"
    by simp
qed

declare fireDue.simps [simp del]

text \<open>
  \<open>fireDue\<close> runs timers until none is due. The browser promises less: every timer
  is a task of its own, which may run late, and frames may run in between. A task is
  either the timer that runs next or a frame, at its time; a schedule is any list of
  tasks, and the component goes through it task by task.
\<close>

datatype task = TimerTask | FrameTask

definition runNextTimer :: "real \<Rightarrow> home \<Rightarrow> home" where
  "runNextTimer now s =
     (case nextDue now (timers s) of
        None \<Rightarrow> s
      | Some t \<Rightarrow> runTimer t s)"

fun step :: "real \<times> task \<Rightarrow> home \<Rightarrow> home" where
  "step (now, TimerTask) s = runNextTimer now s"
| "step (now, FrameTask) s = runFrame now s"

fun runTasks :: "(real \<times> task) list \<Rightarrow> home \<Rightarrow> home" where
  "runTasks [] s = s"
| "runTasks (ev # evs) s = runTasks evs (step ev s)"

text \<open>
  The values that the tasks \<open>evs\<close> publish with \<open>setProgress\<close>, each with the time of
  its frame. \<open>draw\<close> sets \<open>lastProgressUpdate.current\<close> to the time of the frame exactly
  when it publishes, so a task has published when that ref has changed.
\<close>

fun publications :: "(real \<times> task) list \<Rightarrow> home \<Rightarrow> (real \<times> real) list" where
  "publications [] s = []"
| "publications (ev # evs) s =
     (let s' = step ev s in
      (if lastProgressUpdate s' \<noteq> lastProgressUpdate s then [(fst ev, progress s')] else [])
        @ publications evs s')"

text \<open>
  The phase that the specification gives to the elapsed time \<open>t\<close>: the phase of the
  last entry of the timeline whose offset is at most \<open>t\<close>.
\<close>

definition lastEntryPhase :: "real \<Rightarrow> Phase" where
  "lastEntryPhase t = snd (last (filter (\<lambda>(offset, p). offset \<le> t) PHASE_SEQUENCE))"

text \<open>The place of a phase in the order of the type \<open>Phase\<close>.\<close>

fun phaseIndex :: "Phase \<Rightarrow> nat" where
  "phaseIndex Idle = 0"
| "phaseIndex Intro = 1"
| "phaseIndex Hint = 2"
| "phaseIndex Manifest = 3"
| "phaseIndex Escalate = 4"
| "phaseIndex Scare = 5"
| "phaseIndex Aftermath = 6"

text \<open>
  What holds of every state that the operations reach from \<open>mounted\<close>: every pending
  timer is recorded in \<open>timeoutsRef\<close>, every pending frame request is the one in
  \<open>animationRef\<close>, every open audio context is the one in \<open>audioStateRef\<close>, and the
  handles in use are below the next fresh ones (and not 0).
\<close>

definition tracked :: "home \<Rightarrow> bool" where
  "tracked s \<longleftrightarrow>
     list_all (\<lambda>t. tid t \<in> set (timeoutsRef s) \<and> tid t < nextTimer s) (timers s)
     \<and> list_all (\<lambda>f. animationRef s = Some f \<and> f \<noteq> 0 \<and> f < nextFrame s) (frames s)
     \<and> list_all (\<lambda>c. audioStateRef s = Some c \<and> c < nextContext s) (contexts s)
     \<and> distinct (frames s) \<and> distinct (contexts s)
     \<and> 0 < nextFrame s"

text \<open>
  The timers that \<open>beginStory\<close> sets at time \<open>now\<close>, when \<open>k\<close> is the next fresh timer
  handle: one for each entry of the timeline, and the finish timeout.
\<close>

definition scheduled :: "real \<Rightarrow> nat \<Rightarrow> timer list" where
  "scheduled now k =
     [\<lparr>tid = k, due = now + 0, cb = SetPhase Intro\<rparr>,
      \<lparr>tid = k + 1, due = now + 6800, cb = SetPhase Hint\<rparr>,
      \<lparr>tid = k + 2, due = now + 13600, cb = SetPhase Manifest\<rparr>,
      \<lparr>tid = k + 3, due = now + 19800, cb = SetPhase Escalate\<rparr>,
      \<lparr>tid = k + 4, due = now + 24400, cb = SetPhase Scare\<rparr>,
      \<lparr>tid = k + 5, due = now + 30000, cb = SetPhase Aftermath\<rparr>,
      \<lparr>tid = k + 6, due = now + 30060, cb = Finish\<rparr>]"

subsection \<open>Invariants of a run\<close>

text \<open>
  The phase after the callbacks of the timers \<open>ts\<close> have run in this order, and the
  order in which timers are set by \<open>beginStory\<close>: by due time, with distinct handles,
  the finish timeout last.
\<close>

definition afterTimers :: "Phase \<Rightarrow> timer list \<Rightarrow> Phase" where
  "afterTimers p ts = foldl (\<lambda>p t. case cb t of SetPhase q \<Rightarrow> q | Finish \<Rightarrow> p) p ts"

definition inOrder :: "timer list \<Rightarrow> bool" where
  "inOrder ts = sorted_wrt (\<lambda>a b. due a \<le> due b \<and> tid a \<noteq> tid b \<and> cb a \<noteq> Finish) ts"

text \<open>
  The state of a run whose timers were set at \<open>T0\<close> with the handles from \<open>k\<close> on, when
  no task has run later than \<open>bound\<close>: some first timers have run, none of them due
  after \<open>bound\<close>, and the phase is the one they leave; the other timers are pending,
  unless the run has been marked complete, which leaves no timer pending.
\<close>

definition runInv :: "real \<Rightarrow> nat \<Rightarrow> real \<Rightarrow> home \<Rightarrow> bool" where
  "runInv T0 k bound s \<longleftrightarrow>
     (\<exists>fired pending.
        scheduled T0 k = fired @ pending
        \<and> phase s = afterTimers Intro fired \<and> phaseRef s = phase s
        \<and> list_all (\<lambda>t. due t \<le> bound) fired
        \<and> (if isComplete s then timers s = []
           else pending \<noteq> [] \<and> timers s = pending
                \<and> timeoutsRef s = map tid (scheduled T0 k)))"


section \<open>Camera\<close>

lemma Max_insert_max:
  fixes a b :: real
  assumes "finite A"
  shows "Max (insert (max a b) A) = Max (insert a (insert b A))"
proof (cases "A = {}")
  case True
  then show ?thesis by simp
next
  case False
  then show ?thesis using assms by (simp add: max.assoc)
qed

lemma boostLoop_Max:
  "boostLoop c ms zb0 = Max (insert zb0 (boostAt c ` {m \<in> set ms. \<bar>c - m\<bar> < 220}))"
proof (induction ms arbitrary: zb0)
  case Nil
  show ?case by (simp add: boostLoop_def)
next
  case (Cons m ms)
  let ?S = "boostAt c ` {x \<in> set ms. \<bar>c - x\<bar> < 220}"
  have fin: "finite ?S" by simp
  show ?case
  proof (cases "\<bar>c - m\<bar> < 220")
    case True
    then have eq: "{x \<in> set (m # ms). \<bar>c - x\<bar> < 220} = insert m {x \<in> set ms. \<bar>c - x\<bar> < 220}"
      by auto
    have "boostLoop c (m # ms) zb0 = boostLoop c ms (max zb0 (boostAt c m))"
      using True by (simp add: boostLoop_def)
    also have "\<dots> = Max (insert (max zb0 (boostAt c m)) ?S)"
      by (rule Cons.IH)
    also have "\<dots> = Max (insert zb0 (insert (boostAt c m) ?S))"
      using fin by (rule Max_insert_max)
    also have "insert (boostAt c m) ?S = boostAt c ` {x \<in> set (m # ms). \<bar>c - x\<bar> < 220}"
      unfolding eq by (rule image_insert [symmetric])
    finally show ?thesis .
  next
    case False
    then have eq: "{x \<in> set (m # ms). \<bar>c - x\<bar> < 220} = {x \<in> set ms. \<bar>c - x\<bar> < 220}"
      by auto
    have "boostLoop c (m # ms) zb0 = boostLoop c ms zb0"
      using False by (simp add: boostLoop_def)
    also have "\<dots> = Max (insert zb0 ?S)"
      by (rule Cons.IH)
    finally show ?thesis unfolding eq .
  qed
qed

lemma boostAt_window: "\<bar>c - m\<bar> < 220 \<Longrightarrow> 0.3 < boostAt c m \<and> boostAt c m \<le> 0.65"
  by (simp add: boostAt_def field_simps)

lemma zoomBoost_Max:
  "zoomBoost e =
     Max (insert 0 (boostAt (clamped e) ` {m \<in> set JUMP_CUT_MOMENTS. \<bar>clamped e - m\<bar> < 220}))"
  unfolding zoomBoost_def by (rule boostLoop_Max)

lemma zoomBoost_nonzero_iff:
  "zoomBoost e \<noteq> 0 \<longleftrightarrow> (\<exists>m \<in> set JUMP_CUT_MOMENTS. \<bar>clamped e - m\<bar> < 220)"
proof
  assume nz: "zoomBoost e \<noteq> 0"
  show "\<exists>m \<in> set JUMP_CUT_MOMENTS. \<bar>clamped e - m\<bar> < 220"
  proof (rule ccontr)
    assume "\<not> (\<exists>m \<in> set JUMP_CUT_MOMENTS. \<bar>clamped e - m\<bar> < 220)"
    then have "{m \<in> set JUMP_CUT_MOMENTS. \<bar>clamped e - m\<bar> < 220} = {}" by auto
    then have "zoomBoost e = 0" unfolding zoomBoost_Max by (simp only: image_empty Max_singleton)
    with nz show False by simp
  qed
next
  assume "\<exists>m \<in> set JUMP_CUT_MOMENTS. \<bar>clamped e - m\<bar> < 220"
  then obtain m where m: "m \<in> set JUMP_CUT_MOMENTS" "\<bar>clamped e - m\<bar> < 220" by blast
  let ?A = "insert 0 (boostAt (clamped e) ` {m \<in> set JUMP_CUT_MOMENTS. \<bar>clamped e - m\<bar> < 220})"
  have "finite ?A" by simp
  moreover have "boostAt (clamped e) m \<in> ?A" using m by blast
  ultimately have "boostAt (clamped e) m \<le> Max ?A" by (rule Max_ge)
  moreover have "0.3 < boostAt (clamped e) m" using m(2) boostAt_window by blast
  ultimately show "zoomBoost e \<noteq> 0" by (simp add: zoomBoost_Max)
qed

lemma zoomBoost_single_window:
  assumes "m \<in> set JUMP_CUT_MOMENTS" and "\<bar>clamped e - m\<bar> < 220"
  shows "zoomBoost e = boostAt (clamped e) m"
proof -
  have "{x \<in> set JUMP_CUT_MOMENTS. \<bar>clamped e - x\<bar> < 220} = {m}"
    using assms by (auto simp: JUMP_CUT_MOMENTS_def)
  then have "zoomBoost e = max 0 (boostAt (clamped e) m)"
    by (simp add: zoomBoost_Max)
  moreover have "0.3 < boostAt (clamped e) m" using assms(2) boostAt_window by blast
  ultimately show ?thesis by simp
qed

text \<open>
  C7. The camera zoom of a frame is the base zoom, linear in the progress fraction
  (\<open>1.12 + 0.45 * progress\<close>), plus a boost. The boost is the maximum of the pulses of
  the jump cuts whose instant (6200, 12800, 20750 or 24400 ms) is strictly less than
  220 ms away from the clamped elapsed time, and it is zero when there is none: it
  is nonzero exactly inside such a window, where it lies above 0.3 and at most at 0.65.
\<close>

theorem zoom_is_base_plus_jump_cut_boost:
  "zoom e = (1.12 + progressValue e * 0.45) + zoomBoost e
   \<and> progressValue e = min e 30000 / 30000
   \<and> set JUMP_CUT_MOMENTS = {6200, 12800, 20750, 24400}
   \<and> zoomBoost e =
       Max (insert 0 (boostAt (clamped e) ` {m \<in> set JUMP_CUT_MOMENTS. \<bar>clamped e - m\<bar> < 220}))
   \<and> (zoomBoost e \<noteq> 0 \<longleftrightarrow> (\<exists>m \<in> set JUMP_CUT_MOMENTS. \<bar>clamped e - m\<bar> < 220))
   \<and> (\<forall>m \<in> set JUMP_CUT_MOMENTS. \<bar>clamped e - m\<bar> < 220 \<longrightarrow>
         zoomBoost e = 0.3 + (1 - \<bar>clamped e - m\<bar> / 220) * 0.35)"
proof -
  have "zoom e = (1.12 + progressValue e * 0.45) + zoomBoost e"
    by (simp add: zoom_def zoomBase_def)
  moreover have "progressValue e = min e 30000 / 30000"
    by (simp add: progressValue_def clamped_def STORY_DURATION_def)
  moreover have "set JUMP_CUT_MOMENTS = {6200, 12800, 20750, 24400}"
    by (simp add: JUMP_CUT_MOMENTS_def)
  moreover have "\<forall>m \<in> set JUMP_CUT_MOMENTS. \<bar>clamped e - m\<bar> < 220 \<longrightarrow>
         zoomBoost e = 0.3 + (1 - \<bar>clamped e - m\<bar> / 220) * 0.35"
    using zoomBoost_single_window [of _ e] by (simp add: boostAt_def)
  ultimately show ?thesis
    using zoomBoost_Max [of e] zoomBoost_nonzero_iff [of e] by blast
qed

theorem zoom_is_base_plus_jump_cut_boost_witness:
  "zoom 6300 = 1.12 + 0.21 * 0.45 + (0.3 + (1 - 100 / 220) * 0.35) \<and> zoomBoost 3000 = 0"
proof -
  have c: "clamped 6300 = 6300" "clamped 3000 = 3000"
    by (simp_all add: clamped_def STORY_DURATION_def)
  have m: "(6200::real) \<in> set JUMP_CUT_MOMENTS" by (simp add: JUMP_CUT_MOMENTS_def)
  have "\<not> (\<exists>m \<in> set JUMP_CUT_MOMENTS. \<bar>clamped 3000 - m\<bar> < 220)"
    by (simp add: c JUMP_CUT_MOMENTS_def)
  then show ?thesis
    using zoom_is_base_plus_jump_cut_boost [of 6300] zoom_is_base_plus_jump_cut_boost [of 3000] m
    by (auto simp: c)
qed

section \<open>Camera shake\<close>

text \<open>
  C6 as the specification words it: the amplitude of the shake is 3.5 at the phase
  "hint". The source gives the phase "hint" the default amplitude 1.5.
\<close>

theorem shake_hint_counterexample:
  "shakeFactor Hint = 1.5 \<and> shakeFactor Hint \<noteq> 3.5"
  by (simp add: shakeFactor_def)

text \<open>
  C6, amended. The horizontal shake of a frame is \<open>sin (0.012 * now)\<close> times an
  amplitude that is a step function of the current phase: 12 at "scare", 6 at
  "escalate", 3.5 at "manifest", and 1.5 at every other phase (idle, intro, hint,
  aftermath); the vertical shake has 0.6 times that amplitude.
\<close>

theorem shake_amplitude_by_phase:
  "shakeFactor p =
     (case p of Scare \<Rightarrow> 12 | Escalate \<Rightarrow> 6 | Manifest \<Rightarrow> 3.5
      | Idle \<Rightarrow> 1.5 | Intro \<Rightarrow> 1.5 | Hint \<Rightarrow> 1.5 | Aftermath \<Rightarrow> 1.5)
   \<and> xShake now p = sin (now * 0.012) * shakeFactor p
   \<and> \<bar>xShake now p\<bar> \<le> shakeFactor p
   \<and> \<bar>yShake now p\<bar> \<le> 0.6 * shakeFactor p"
proof -
  have tab: "shakeFactor p =
     (case p of Scare \<Rightarrow> 12 | Escalate \<Rightarrow> 6 | Manifest \<Rightarrow> 3.5
      | Idle \<Rightarrow> 1.5 | Intro \<Rightarrow> 1.5 | Hint \<Rightarrow> 1.5 | Aftermath \<Rightarrow> 1.5)"
    by (cases p) (simp_all add: shakeFactor_def)
  have pos: "0 \<le> shakeFactor p" by (simp add: shakeFactor_def)
  have "\<bar>sin (now * 0.012)\<bar> * shakeFactor p \<le> 1 * shakeFactor p"
    by (rule mult_right_mono) (simp_all add: pos)
  then have x: "\<bar>xShake now p\<bar> \<le> shakeFactor p"
    using pos by (simp add: xShake_def abs_mult)
  have "\<bar>cos (now * 0.009)\<bar> * shakeFactor p \<le> 1 * shakeFactor p"
    by (rule mult_right_mono) (simp_all add: pos)
  then have y: "\<bar>yShake now p\<bar> \<le> 0.6 * shakeFactor p"
    using pos by (simp add: yShake_def abs_mult mult.commute)
  show ?thesis using tab x y by (simp add: xShake_def)
qed

section \<open>Wall drawing\<close>

text \<open>
  C9 as the specification words it: the eye strokes take the alarming colour and widen
  from "hint" on, in every later phase. In the source the phase "aftermath", which
  follows "scare", has the pale colour and the narrow stroke again, and at "hint"
  the stroke is as wide (5) and the eye offset the same (6) as at "intro".
\<close>

theorem wall_eyes_counterexample:
  "eyeStrokeStyle Aftermath = eyeStrokeStyle Intro
   \<and> eyeStrokeStyle Aftermath \<noteq> eyeStrokeStyle Hint
   \<and> eyeLineWidth Aftermath = eyeLineWidth Intro
   \<and> eyeLineWidth Hint = eyeLineWidth Intro
   \<and> eyeOffset Hint = eyeOffset Intro"
  by (simp add: eyeStrokeStyle_def eyeLineWidth_def eyeOffset_def)

text \<open>
  C9, amended. The opacity of the wall drawing is \<open>0.12 + 0.25 * progress\<close>, so it
  grows linearly with the progress fraction. The eye strokes have the alarming colour
  exactly in the phases hint, manifest, escalate and scare (the pale one in idle, intro
  and aftermath); the stroke is 7 wide at scare and 5 in every other phase; each eye
  stroke is offset from the centre by 12 at scare, 9 at escalate and 6 in every other
  phase. Width and offset are largest at scare.
\<close>

theorem wall_drawing_by_progress_and_phase:
  "wallAlpha e = 0.12 + 0.25 * progressValue e
   \<and> (e \<le> e' \<longrightarrow> wallAlpha e \<le> wallAlpha e')
   \<and> (eyeStrokeStyle p = ''rgba(211, 43, 55, 0.75)'' \<longleftrightarrow> p \<in> {Hint, Manifest, Escalate, Scare})
   \<and> (eyeStrokeStyle p = ''rgba(211, 43, 55, 0.35)'' \<longleftrightarrow> p \<in> {Idle, Intro, Aftermath})
   \<and> eyeLineWidth p = (if p = Scare then 7 else 5)
   \<and> eyeOffset p = (if p = Scare then 12 else if p = Escalate then 9 else 6)
   \<and> eyeLineWidth p \<le> eyeLineWidth Scare
   \<and> eyeOffset p \<le> eyeOffset Scare"
proof -
  have mono: "e \<le> e' \<longrightarrow> wallAlpha e \<le> wallAlpha e'"
    by (auto simp: wallAlpha_def progressValue_def clamped_def STORY_DURATION_def min_def)
  have col: "eyeStrokeStyle p = ''rgba(211, 43, 55, 0.75)'' \<longleftrightarrow> p \<in> {Hint, Manifest, Escalate, Scare}"
    by (cases p) (simp_all add: eyeStrokeStyle_def)
  have pale: "eyeStrokeStyle p = ''rgba(211, 43, 55, 0.35)'' \<longleftrightarrow> p \<in> {Idle, Intro, Aftermath}"
    by (cases p) (simp_all add: eyeStrokeStyle_def)
  show ?thesis
    using mono col pale by (simp add: wallAlpha_def eyeLineWidth_def eyeOffset_def)
qed

theorem wall_drawing_by_progress_and_phase_witness:
  "(15000::real) \<le> 30000 \<and> wallAlpha 15000 \<le> wallAlpha 30000
   \<and> wallAlpha 15000 = 0.245 \<and> wallAlpha 30000 = 0.37
   \<and> eyeStrokeStyle Manifest = ''rgba(211, 43, 55, 0.75)''
   \<and> eyeStrokeStyle Aftermath = ''rgba(211, 43, 55, 0.35)''"
  using wall_drawing_by_progress_and_phase [of 15000 30000 Manifest]
    wall_drawing_by_progress_and_phase [of 30000 30000 Aftermath]
  by (simp add: progressValue_def clamped_def STORY_DURATION_def)

section \<open>Glitch bars\<close>

lemma length_glitchBars:
  "length (glitchBars p w h rnd) =
     (if p = Scare then 28 else if p = Manifest \<or> p = Escalate then 18 else 0)"
  by (simp add: glitchBars_def bars_def)

lemma nth_glitchBars:
  "i < length (glitchBars p w h rnd) \<Longrightarrow> glitchBars p w h rnd ! i = glitchBar p w h rnd i"
  by (cases "p = Manifest \<or> p = Escalate \<or> p = Scare") (simp_all add: glitchBars_def)

text \<open>
  C5 as the specification words it: the number of bars is random. In the source the
  number of bars depends on the phase only: two different streams of random numbers give
  the same 18 bars at "manifest", and the same 28 at "scare".
\<close>

theorem glitch_count_counterexample:
  "length (glitchBars Manifest 360 640 (\<lambda>n. 0)) = 18
   \<and> length (glitchBars Manifest 360 640 (\<lambda>n. 1 / 2)) = 18
   \<and> length (glitchBars Scare 360 640 (\<lambda>n. 0)) = 28
   \<and> length (glitchBars Scare 360 640 (\<lambda>n. 1 / 2)) = 28"
  by (simp add: glitchBars_def bars_def)

text \<open>
  C5, amended. A frame draws glitch bars if and only if the current phase is manifest,
  escalate or scare. Their number is fixed by the phase, whatever the random numbers
  are: 18 at manifest and at escalate, 28 at scare, none in the other phases. The alpha
  of the \<open>i\<close>-th bar is its random number times the cap of the phase: 0.18 at manifest,
  0.3 at escalate, 0.48 at scare.
\<close>

theorem glitch_bars_by_phase:
  "(glitchBars p w h rnd \<noteq> [] \<longleftrightarrow> p \<in> {Manifest, Escalate, Scare})
   \<and> length (glitchBars p w h rnd) =
       (case p of Manifest \<Rightarrow> 18 | Escalate \<Rightarrow> 18 | Scare \<Rightarrow> 28
        | Idle \<Rightarrow> 0 | Intro \<Rightarrow> 0 | Hint \<Rightarrow> 0 | Aftermath \<Rightarrow> 0)
   \<and> (\<forall>i < length (glitchBars p w h rnd).
         alpha (glitchBars p w h rnd ! i) =
           rnd (5 * i) * (case p of Manifest \<Rightarrow> 0.18 | Escalate \<Rightarrow> 0.3 | Scare \<Rightarrow> 0.48
                          | Idle \<Rightarrow> 0 | Intro \<Rightarrow> 0 | Hint \<Rightarrow> 0 | Aftermath \<Rightarrow> 0))"
proof -
  have drawn: "glitchBars p w h rnd \<noteq> [] \<longleftrightarrow> p \<in> {Manifest, Escalate, Scare}"
    by (cases p) (simp_all add: glitchBars_def bars_def)
  have count: "length (glitchBars p w h rnd) =
       (case p of Manifest \<Rightarrow> 18 | Escalate \<Rightarrow> 18 | Scare \<Rightarrow> 28
        | Idle \<Rightarrow> 0 | Intro \<Rightarrow> 0 | Hint \<Rightarrow> 0 | Aftermath \<Rightarrow> 0)"
    by (cases p) (simp_all add: length_glitchBars)
  have cap: "\<forall>i < length (glitchBars p w h rnd).
         alpha (glitchBars p w h rnd ! i) =
           rnd (5 * i) * (case p of Manifest \<Rightarrow> 0.18 | Escalate \<Rightarrow> 0.3 | Scare \<Rightarrow> 0.48
                          | Idle \<Rightarrow> 0 | Intro \<Rightarrow> 0 | Hint \<Rightarrow> 0 | Aftermath \<Rightarrow> 0)"
  proof (intro allI impI)
    fix i assume i: "i < length (glitchBars p w h rnd)"
    then have "p \<in> {Manifest, Escalate, Scare}" using drawn by auto
    then show "alpha (glitchBars p w h rnd ! i) =
           rnd (5 * i) * (case p of Manifest \<Rightarrow> 0.18 | Escalate \<Rightarrow> 0.3 | Scare \<Rightarrow> 0.48
                          | Idle \<Rightarrow> 0 | Intro \<Rightarrow> 0 | Hint \<Rightarrow> 0 | Aftermath \<Rightarrow> 0)"
      using nth_glitchBars [OF i] by (auto simp: glitchBar_def strength_def Let_def)
  qed
  show ?thesis using drawn count cap by blast
qed

theorem glitch_bars_by_phase_witness:
  "(2::nat) < length (glitchBars Escalate 360 640 (\<lambda>n. 1 / 2))
   \<and> alpha (glitchBars Escalate 360 640 (\<lambda>n. 1 / 2) ! 2) = 0.15
   \<and> glitchBars Hint 360 640 (\<lambda>n. 1 / 2) = []"
  using glitch_bars_by_phase [of Escalate 360 640 "\<lambda>n. 1 / 2"]
    glitch_bars_by_phase [of Hint 360 640 "\<lambda>n. 1 / 2"]
  by simp

text \<open>
  C10. With every random number in \<open>[0, 1)\<close> and a device pixel ratio that is not
  negative, every glitch bar of a frame lies horizontally inside the drawing width
  (the canvas width divided by the device pixel ratio): its left edge is at 0 or
  more, its right edge at the width or less; and its alpha is strictly below the
  cap of the current phase.
\<close>

theorem glitch_bar_inside_canvas:
  assumes rnd: "\<forall>n. 0 \<le> rnd n \<and> rnd n < 1"
    and dpr: "0 \<le> devicePixelRatio"
    and b: "b \<in> set (glitchBars p (viewSize canvasWidth devicePixelRatio) h rnd)"
  shows "0 \<le> barX b \<and> barX b + barWidth b \<le> viewSize canvasWidth devicePixelRatio
         \<and> alpha b < strength p"
proof -
  let ?w = "viewSize canvasWidth devicePixelRatio"
  have w: "0 \<le> ?w" using dpr by (simp add: viewSize_def)
  from b obtain i where bi: "b = glitchBar p ?w h rnd i"
    by (auto simp: glitchBars_def split: if_splits)
  let ?bw = "rnd (5 * i + 1) * ?w * 0.12"
  let ?r = "rnd (5 * i + 3)"
  have r1: "0 \<le> rnd (5 * i + 1)" "rnd (5 * i + 1) \<le> 1" using rnd by (auto intro: less_imp_le)
  have r3: "0 \<le> ?r" "?r \<le> 1" using rnd by (auto intro: less_imp_le)
  have "rnd (5 * i + 1) * ?w \<le> 1 * ?w" using r1 w by (intro mult_right_mono) auto
  then have bw_le: "?bw \<le> ?w" using w by simp
  then have gap: "0 \<le> ?w - ?bw" by simp
  have x0: "0 \<le> ?r * (?w - ?bw)" using r3 gap by simp
  have "?r * (?w - ?bw) \<le> 1 * (?w - ?bw)" using r3 gap by (intro mult_right_mono) auto
  then have x1: "?r * (?w - ?bw) + ?bw \<le> ?w" by simp
  have s: "0 < strength p" by (simp add: strength_def)
  have "rnd (5 * i) < 1" using rnd by simp
  then have a: "rnd (5 * i) * strength p < 1 * strength p"
    using s by (intro mult_strict_right_mono) auto
  show ?thesis using x0 x1 a by (simp add: bi glitchBar_def Let_def)
qed

theorem glitch_bar_inside_canvas_witness:
  "(\<forall>n. (0::real) \<le> (\<lambda>n. 1 / 2) n \<and> (\<lambda>n. 1 / 2 :: real) n < 1) \<and> (0::real) \<le> 2
   \<and> glitchBar Scare (viewSize 720 2) 640 (\<lambda>n. 1 / 2) 0
        \<in> set (glitchBars Scare (viewSize 720 2) 640 (\<lambda>n. 1 / 2))
   \<and> barX (glitchBar Scare (viewSize 720 2) 640 (\<lambda>n. 1 / 2) 0) = 169.2
   \<and> barWidth (glitchBar Scare (viewSize 720 2) 640 (\<lambda>n. 1 / 2) 0) = 21.6
   \<and> 169.2 + 21.6 \<le> viewSize 720 2
   \<and> alpha (glitchBar Scare (viewSize 720 2) 640 (\<lambda>n. 1 / 2) 0) < strength Scare"
proof -
  have r: "\<forall>n. (0::real) \<le> (\<lambda>n. 1 / 2) n \<and> (\<lambda>n. 1 / 2 :: real) n < 1" by simp
  have d: "(0::real) \<le> 2" by simp
  have m: "glitchBar Scare (viewSize 720 2) 640 (\<lambda>n. 1 / 2) 0
        \<in> set (glitchBars Scare (viewSize 720 2) 640 (\<lambda>n. 1 / 2))"
    by (simp add: glitchBars_def bars_def)
  show ?thesis
    using r d m glitch_bar_inside_canvas [OF r d m]
    by (simp add: glitchBar_def viewSize_def Let_def)
qed

section \<open>Ambient gain\<close>





section \<open>Timers and frames\<close>

lemma fold_clearTimeout:
  "fold clearTimeout ids s = s\<lparr>timers := filter (\<lambda>t. tid t \<notin> set ids) (timers s)\<rparr>"
proof (induction ids arbitrary: s)
  case Nil
  show ?case by simp
next
  case (Cons i ids)
  have "fold clearTimeout (i # ids) s = fold clearTimeout ids (clearTimeout i s)" by simp
  also have "\<dots> = (clearTimeout i s)\<lparr>timers := filter (\<lambda>t. tid t \<notin> set ids) (timers (clearTimeout i s))\<rparr>"
    by (rule Cons.IH)
  also have "\<dots> = s\<lparr>timers := filter (\<lambda>t. tid t \<notin> set (i # ids)) (timers s)\<rparr>"
    by (simp add: clearTimeout_def conj_commute)
  finally show ?case .
qed

lemma clearTimeouts_eq:
  "clearTimeouts s =
     s\<lparr>timers := filter (\<lambda>t. tid t \<notin> set (timeoutsRef s)) (timers s), timeoutsRef := []\<rparr>"
  by (simp add: clearTimeouts_def fold_clearTimeout)

lemma schedule_eq:
  "schedule c delay now s =
     s\<lparr>timers := timers s @ [\<lparr>tid = nextTimer s, due = now + delay, cb = c\<rparr>],
       nextTimer := Suc (nextTimer s),
       timeoutsRef := timeoutsRef s @ [nextTimer s]\<rparr>"
  by (simp add: schedule_def setTimeout_def)

lemma scheduleRun_eq:
  "scheduleRun now s =
     s\<lparr>timers := filter (\<lambda>t. tid t \<notin> set (timeoutsRef s)) (timers s) @ scheduled now (nextTimer s),
       timeoutsRef := map tid (scheduled now (nextTimer s)),
       nextTimer := nextTimer s + 7\<rparr>"
  by (simp add: scheduleRun_def PHASE_SEQUENCE_def STORY_DURATION_def schedule_eq clearTimeouts_eq
      scheduled_def)

lemma beginStory_eq:
  "beginStory now s =
     s\<lparr>phase := Intro, phaseRef := Intro, started := True, runKey := Suc (runKey s),
       progress := 0, isComplete := False,
       contexts := (case audioStateRef s of None \<Rightarrow> contexts s | Some c \<Rightarrow> removeAll c (contexts s))
                     @ [nextContext s],
       nextContext := Suc (nextContext s),
       audioStateRef := Some (nextContext s),
       timers := filter (\<lambda>t. tid t \<notin> set (timeoutsRef s)) (timers s) @ scheduled now (nextTimer s),
       timeoutsRef := map tid (scheduled now (nextTimer s)),
       nextTimer := nextTimer s + 7\<rparr>"
  by (cases "audioStateRef s")
    (simp_all add: beginStory_def scheduleRun_eq resetRun_def setIsComplete_def setPhase_def
      startAudio_def newAudio_def stopAudio_def)


lemma pick_keep:
  "\<forall>u \<in> set ds. \<not> due u < due d \<Longrightarrow>
     foldl (\<lambda>best t. if due t < due best then t else best) d ds = d"
  by (induction ds) auto

lemma nextDue_sorted:
  assumes "sorted_wrt (\<lambda>a b. due a \<le> due b) (t # ts)"
  shows "nextDue now (t # ts) = (if due t \<le> now then Some t else None)"
proof (cases "due t \<le> now")
  case True
  have "\<forall>u \<in> set (filter (\<lambda>t. due t \<le> now) ts). \<not> due u < due t"
    using assms by auto
  then show ?thesis using True by (simp add: nextDue_def pick_keep)
next
  case False
  then have "filter (\<lambda>t. due t \<le> now) ts = []"
    using assms by (auto simp: filter_empty_conv)
  then show ?thesis using False by (simp add: nextDue_def)
qed

lemma nextDue_Nil: "nextDue now [] = None"
  by (simp add: nextDue_def)

lemma fireDue_None: "nextDue now (timers s) = None \<Longrightarrow> fireDue now s = s"
  by (subst fireDue.simps) simp

lemma fireDue_Some: "nextDue now (timers s) = Some t \<Longrightarrow> fireDue now s = fireDue now (runTimer t s)"
  by (subst fireDue.simps) simp

lemma runTimer_SetPhase:
  "cb t = SetPhase p \<Longrightarrow>
     runTimer t s = s\<lparr>timers := filter (\<lambda>u. tid u \<noteq> tid t) (timers s), phase := p, phaseRef := p\<rparr>"
  by (simp add: runTimer_def clearTimeout_def setPhase_def)

lemma runTimer_Finish:
  "cb t = Finish \<Longrightarrow>
     runTimer t s =
       (if isComplete s then s\<lparr>timers := filter (\<lambda>u. tid u \<noteq> tid t) (timers s)\<rparr>
        else s\<lparr>timers := filter (\<lambda>u. tid u \<notin> set (timeoutsRef s))
                            (filter (\<lambda>u. tid u \<noteq> tid t) (timers s)),
               isComplete := True, timeoutsRef := []\<rparr>)"
  by (simp add: runTimer_def clearTimeout_def setIsComplete_def clearTimeouts_eq)

lemma fireDue_inOrder:
  assumes "inOrder ts" and "timers s = ts"
  shows "timers (fireDue now s) = filter (\<lambda>t. now < due t) ts
    \<and> phaseRef (fireDue now s) = afterTimers (phaseRef s) (filter (\<lambda>t. due t \<le> now) ts)
    \<and> phase (fireDue now s) = afterTimers (phase s) (filter (\<lambda>t. due t \<le> now) ts)
    \<and> isComplete (fireDue now s) = (isComplete s \<or> (\<exists>t \<in> set ts. cb t = Finish \<and> due t \<le> now))
    \<and> timeoutsRef (fireDue now s) =
        (if \<not> isComplete s \<and> (\<exists>t \<in> set ts. cb t = Finish \<and> due t \<le> now) then []
         else timeoutsRef s)"
  using assms
proof (induction ts arbitrary: s)
  case Nil
  then show ?case by (simp add: fireDue_None nextDue_Nil afterTimers_def)
next
  case (Cons t ts)
  have srt: "sorted_wrt (\<lambda>a b. due a \<le> due b) (t # ts)"
    using Cons.prems(1) unfolding inOrder_def by (rule sorted_wrt_mono_rel [rotated]) simp
  have nd: "nextDue now (timers s) = (if due t \<le> now then Some t else None)"
    using srt Cons.prems(2) by (simp only: nextDue_sorted)
  have ord: "inOrder ts" using Cons.prems(1) by (simp add: inOrder_def)
  have hd: "\<forall>u \<in> set ts. due t \<le> due u \<and> tid t \<noteq> tid u \<and> cb t \<noteq> Finish"
    using Cons.prems(1) by (simp add: inOrder_def)
  show ?case
  proof (cases "due t \<le> now")
    case False
    then have all: "\<forall>u \<in> set ts. now < due u" using hd by fastforce
    have "fireDue now s = s" using nd False by (simp add: fireDue_None)
    moreover have "filter (\<lambda>t. now < due t) ts = ts" "filter (\<lambda>t. due t \<le> now) ts = []"
      using all by (auto simp: filter_empty_conv intro: filter_True)
    ultimately show ?thesis using False Cons.prems(2) all by (auto simp: afterTimers_def)
  next
    case True
    have fd: "fireDue now s = fireDue now (runTimer t s)"
      using nd True by (simp add: fireDue_Some)
    have "\<forall>u \<in> set ts. tid u \<noteq> tid t" using hd by fastforce
    then have "filter (\<lambda>u. tid u \<noteq> tid t) ts = ts" by (intro filter_True)
    then have rest: "filter (\<lambda>u. tid u \<noteq> tid t) (timers s) = ts"
      using Cons.prems(2) by simp
    show ?thesis
    proof (cases "cb t")
      case (SetPhase p)
      have tm: "timers (runTimer t s) = ts" by (simp add: runTimer_SetPhase [OF SetPhase] rest)
      note IH = Cons.IH [OF ord tm]
      show ?thesis using IH True SetPhase
        by (auto simp: fd runTimer_SetPhase [OF SetPhase] afterTimers_def)
    next
      case Finish
      then have "ts = []" using hd by (cases ts) auto
      then have tm: "timers (runTimer t s) = ts"
        using rest by (simp add: runTimer_Finish [OF Finish])
      note IH = Cons.IH [OF ord tm]
      show ?thesis using IH True Finish \<open>ts = []\<close>
        by (auto simp: fd runTimer_Finish [OF Finish] afterTimers_def)
    qed
  qed
qed

lemma inOrder_scheduled: "inOrder (scheduled T0 k)"
  by (simp add: inOrder_def scheduled_def)

lemma inOrder_filter: "inOrder ts \<Longrightarrow> inOrder (filter P ts)"
  unfolding inOrder_def by (rule sorted_wrt_filter)

lemma filter_due_split:
  assumes "sorted_wrt (\<lambda>a b. due a \<le> due b) ts" and "now \<le> now'"
  shows "filter (\<lambda>t. due t \<le> now') ts =
         filter (\<lambda>t. due t \<le> now) ts @ filter (\<lambda>t. due t \<le> now') (filter (\<lambda>t. now < due t) ts)"
  using assms(1)
proof (induction ts)
  case Nil
  show ?case by simp
next
  case (Cons t ts)
  show ?case
  proof (cases "due t \<le> now")
    case True
    then show ?thesis using Cons assms(2) by simp
  next
    case False
    then have "\<forall>u \<in> set ts. \<not> due u \<le> now" using Cons.prems by fastforce
    then have "filter (\<lambda>t. due t \<le> now) ts = []" "filter (\<lambda>t. now < due t) ts = ts"
      by (auto simp: filter_empty_conv intro!: filter_True)
    then show ?thesis using False by simp
  qed
qed


lemma sorted_scheduled: "sorted_wrt (\<lambda>a b. due a \<le> due b) (scheduled T0 k)"
  by (simp add: scheduled_def)

lemma nextDue_SomeD:
  assumes "nextDue now ts = Some t"
  shows "t \<in> set ts \<and> due t \<le> now"
proof -
  have pick: "foldl (\<lambda>best t. if due t < due best then t else best) d ds \<in> insert d (set ds)"
    for d :: timer and ds
    by (induction ds arbitrary: d) auto
  from assms obtain d ds where f: "filter (\<lambda>t. due t \<le> now) ts = d # ds"
    and t: "t = foldl (\<lambda>best t. if due t < due best then t else best) d ds"
    by (auto simp: nextDue_def split: list.splits)
  have "t \<in> set (d # ds)" using pick [of d ds] t by simp
  then have "t \<in> set (filter (\<lambda>t. due t \<le> now) ts)" unfolding f .
  then show ?thesis by simp
qed

lemma runTimer_unchanged:
  "frames (runTimer t s) = frames s \<and> animationRef (runTimer t s) = animationRef s
   \<and> nextFrame (runTimer t s) = nextFrame s
   \<and> startTimeRef (runTimer t s) = startTimeRef s
   \<and> progress (runTimer t s) = progress s
   \<and> lastProgressUpdate (runTimer t s) = lastProgressUpdate s
   \<and> contexts (runTimer t s) = contexts s \<and> audioStateRef (runTimer t s) = audioStateRef s
   \<and> nextContext (runTimer t s) = nextContext s
   \<and> nextTimer (runTimer t s) = nextTimer s
   \<and> runKey (runTimer t s) = runKey s \<and> started (runTimer t s) = started s"
  by (cases "cb t") (simp_all add: runTimer_SetPhase runTimer_Finish)

lemma fireDue_unchanged:
  "frames (fireDue now s) = frames s \<and> animationRef (fireDue now s) = animationRef s
   \<and> nextFrame (fireDue now s) = nextFrame s
   \<and> startTimeRef (fireDue now s) = startTimeRef s
   \<and> progress (fireDue now s) = progress s
   \<and> lastProgressUpdate (fireDue now s) = lastProgressUpdate s
   \<and> contexts (fireDue now s) = contexts s \<and> audioStateRef (fireDue now s) = audioStateRef s
   \<and> nextContext (fireDue now s) = nextContext s
   \<and> nextTimer (fireDue now s) = nextTimer s
   \<and> runKey (fireDue now s) = runKey s \<and> started (fireDue now s) = started s"
proof (induction now s rule: fireDue.induct)
  case (1 now s)
  show ?case
  proof (cases "nextDue now (timers s)")
    case None
    then show ?thesis by (simp add: fireDue_None)
  next
    case (Some t)
    then show ?thesis using "1.IH" [OF Some] runTimer_unchanged [of t s]
      by (simp add: fireDue_Some)
  qed
qed

lemma setIsComplete_True_eq:
  "setIsComplete True s =
     (if isComplete s then s
      else s\<lparr>isComplete := True,
             timers := filter (\<lambda>t. tid t \<notin> set (timeoutsRef s)) (timers s),
             timeoutsRef := []\<rparr>)"
  by (simp add: setIsComplete_def clearTimeouts_eq)

lemma draw_eq:
  "draw now s =
     (let s1 = (if now - lastProgressUpdate s > 120
                then s\<lparr>progress := progressValue (now - startTimeRef s), lastProgressUpdate := now\<rparr>
                else s)
      in if now - startTimeRef s < STORY_DURATION
         then s1\<lparr>frames := frames s @ [nextFrame s], nextFrame := Suc (nextFrame s),
                 animationRef := Some (nextFrame s)\<rparr>
         else if isComplete s then s1
         else s1\<lparr>isComplete := True,
                 timers := filter (\<lambda>t. tid t \<notin> set (timeoutsRef s)) (timers s),
                 timeoutsRef := []\<rparr>)"
  by (simp add: draw_def Let_def clamped_def requestAnimationFrame_def setIsComplete_True_eq
      STORY_DURATION_def)

lemma untracked_scheduled:
  "filter (\<lambda>t. tid t \<notin> set (map tid (scheduled T0 k))) (filter P (scheduled T0 k)) = []"
  by (auto simp: filter_empty_conv)

lemma tracked_timers_cleared:
  "tracked s \<Longrightarrow> filter (\<lambda>t. tid t \<notin> set (timeoutsRef s)) (timers s) = []"
  by (auto simp: tracked_def list_all_iff filter_empty_conv)

lemma runKeyCleanup_fields:
  "timers (runKeyCleanup s) = timers s \<and> timeoutsRef (runKeyCleanup s) = timeoutsRef s
   \<and> phase (runKeyCleanup s) = phase s \<and> phaseRef (runKeyCleanup s) = phaseRef s
   \<and> isComplete (runKeyCleanup s) = isComplete s \<and> nextFrame (runKeyCleanup s) = nextFrame s
   \<and> contexts (runKeyCleanup s) = contexts s \<and> audioStateRef (runKeyCleanup s) = audioStateRef s
   \<and> nextTimer (runKeyCleanup s) = nextTimer s \<and> nextContext (runKeyCleanup s) = nextContext s
   \<and> runKey (runKeyCleanup s) = runKey s
   \<and> progress (runKeyCleanup s) = progress s
   \<and> lastProgressUpdate (runKeyCleanup s) = lastProgressUpdate s"
  by (simp add: runKeyCleanup_def cancelAnimationFrame_def split: option.splits)

lemma runKeyEffect_fields:
  assumes "runKey s \<noteq> 0"
  shows "startTimeRef (runKeyEffect T1 s) = T1
   \<and> timers (runKeyEffect T1 s) = timers s \<and> timeoutsRef (runKeyEffect T1 s) = timeoutsRef s
   \<and> phase (runKeyEffect T1 s) = phase s \<and> phaseRef (runKeyEffect T1 s) = phaseRef s
   \<and> isComplete (runKeyEffect T1 s) = isComplete s
   \<and> contexts (runKeyEffect T1 s) = contexts s \<and> audioStateRef (runKeyEffect T1 s) = audioStateRef s
   \<and> nextTimer (runKeyEffect T1 s) = nextTimer s \<and> nextContext (runKeyEffect T1 s) = nextContext s
   \<and> frames (runKeyEffect T1 s) = frames (runKeyCleanup s) @ [nextFrame s]
   \<and> animationRef (runKeyEffect T1 s) = Some (nextFrame s)
   \<and> nextFrame (runKeyEffect T1 s) = Suc (nextFrame s)"
  using assms
  by (simp add: runKeyEffect_def Let_def requestAnimationFrame_def runKeyCleanup_fields)

lemma runKey_beginStory: "runKey (beginStory T0 s) \<noteq> 0"
  by (simp add: beginStory_eq)

lemma beginStory_fields:
  assumes "tracked s"
  shows "timers (beginStory T0 s) = scheduled T0 (nextTimer s)"
    and "timeoutsRef (beginStory T0 s) = map tid (scheduled T0 (nextTimer s))"
    and "phase (beginStory T0 s) = Intro" and "phaseRef (beginStory T0 s) = Intro"
    and "\<not> isComplete (beginStory T0 s)"
    and "progress (beginStory T0 s) = 0"
    and "nextFrame (beginStory T0 s) = nextFrame s"
    and "frames (beginStory T0 s) = frames s"
    and "animationRef (beginStory T0 s) = animationRef s"
  using tracked_timers_cleared [OF assms] by (simp_all add: beginStory_eq)


lemma lastEntryPhase_mono:
  "0 \<le> t \<Longrightarrow> t \<le> t' \<Longrightarrow> phaseIndex (lastEntryPhase t) \<le> phaseIndex (lastEntryPhase t')"
  by (simp add: lastEntryPhase_def PHASE_SEQUENCE_def STORY_DURATION_def)


lemma tracked_mounted: "tracked mounted"
  by (simp add: tracked_def mounted_def)


section \<open>Published progress\<close>

lemma progressValue_eq: "progressValue e = min e 30000 / 30000"
  by (simp add: progressValue_def clamped_def STORY_DURATION_def)

lemma progressValue_mono: "e \<le> e' \<Longrightarrow> progressValue e \<le> progressValue e'"
  by (simp add: progressValue_eq divide_right_mono min.coboundedI1 min.coboundedI2 min_le_iff_disj)

lemma draw_fields:
  "isComplete (draw n s) = (isComplete s \<or> STORY_DURATION \<le> n - startTimeRef s)"
  "startTimeRef (draw n s) = startTimeRef s"
  "frames (draw n s) =
     (if n - startTimeRef s < STORY_DURATION then frames s @ [nextFrame s] else frames s)"
  by (auto simp: draw_eq Let_def)

lemma draw_publish:
  "lastProgressUpdate (draw n s) =
     (if 120 < n - lastProgressUpdate s then n else lastProgressUpdate s)"
  "progress (draw n s) =
     (if 120 < n - lastProgressUpdate s then progressValue (n - startTimeRef s) else progress s)"
  by (auto simp: draw_eq Let_def)

lemma runCallbacks_publish:
  assumes "startTimeRef s = startTimeRef s0"
    and "(lastProgressUpdate s = lastProgressUpdate s0 \<and> progress s = progress s0)
         \<or> (lastProgressUpdate s = n \<and> 120 < n - lastProgressUpdate s0
             \<and> progress s = progressValue (n - startTimeRef s0))"
  shows "startTimeRef (runCallbacks n hs s) = startTimeRef s0
    \<and> ((lastProgressUpdate (runCallbacks n hs s) = lastProgressUpdate s0
          \<and> progress (runCallbacks n hs s) = progress s0)
        \<or> (lastProgressUpdate (runCallbacks n hs s) = n \<and> 120 < n - lastProgressUpdate s0
            \<and> progress (runCallbacks n hs s) = progressValue (n - startTimeRef s0)))"
  using assms
proof (induction hs arbitrary: s)
  case Nil
  then show ?case by simp
next
  case (Cons h hs)
  let ?s1 = "if h \<in> set (frames s) then draw n (cancelAnimationFrame h s) else s"
  have c: "lastProgressUpdate (cancelAnimationFrame h s) = lastProgressUpdate s"
    "progress (cancelAnimationFrame h s) = progress s"
    "startTimeRef (cancelAnimationFrame h s) = startTimeRef s"
    by (simp_all add: cancelAnimationFrame_def)
  have st: "startTimeRef ?s1 = startTimeRef s0"
    using Cons.prems(1) by (simp add: draw_fields c)
  have pb: "(lastProgressUpdate ?s1 = lastProgressUpdate s0 \<and> progress ?s1 = progress s0)
         \<or> (lastProgressUpdate ?s1 = n \<and> 120 < n - lastProgressUpdate s0
             \<and> progress ?s1 = progressValue (n - startTimeRef s0))"
    using Cons.prems by (auto simp: draw_publish c)
  show ?case using Cons.IH [OF st pb] by simp
qed

lemma runNextTimer_unchanged:
  "frames (runNextTimer now s) = frames s \<and> animationRef (runNextTimer now s) = animationRef s
   \<and> nextFrame (runNextTimer now s) = nextFrame s
   \<and> startTimeRef (runNextTimer now s) = startTimeRef s
   \<and> progress (runNextTimer now s) = progress s
   \<and> lastProgressUpdate (runNextTimer now s) = lastProgressUpdate s
   \<and> contexts (runNextTimer now s) = contexts s \<and> audioStateRef (runNextTimer now s) = audioStateRef s
   \<and> nextContext (runNextTimer now s) = nextContext s
   \<and> nextTimer (runNextTimer now s) = nextTimer s
   \<and> runKey (runNextTimer now s) = runKey s \<and> started (runNextTimer now s) = started s"
  using runTimer_unchanged by (simp add: runNextTimer_def split: option.splits)

lemma step_publish:
  "startTimeRef (step ev s) = startTimeRef s
    \<and> ((lastProgressUpdate (step ev s) = lastProgressUpdate s \<and> progress (step ev s) = progress s)
        \<or> (lastProgressUpdate (step ev s) = fst ev \<and> 120 < fst ev - lastProgressUpdate s
            \<and> progress (step ev s) = progressValue (fst ev - startTimeRef s)))"
proof (cases ev)
  case (Pair n k)
  show ?thesis
  proof (cases k)
    case TimerTask
    then show ?thesis using Pair runNextTimer_unchanged [of n s] by simp
  next
    case FrameTask
    have "startTimeRef (runCallbacks n (frames s) s) = startTimeRef s
      \<and> ((lastProgressUpdate (runCallbacks n (frames s) s) = lastProgressUpdate s
            \<and> progress (runCallbacks n (frames s) s) = progress s)
          \<or> (lastProgressUpdate (runCallbacks n (frames s) s) = n \<and> 120 < n - lastProgressUpdate s
              \<and> progress (runCallbacks n (frames s) s) = progressValue (n - startTimeRef s)))"
      by (intro runCallbacks_publish) simp_all
    then show ?thesis using Pair FrameTask by (simp add: runFrame_def)
  qed
qed

lemma publications_props:
  "(\<forall>p \<in> set (publications evs s).
       snd p = progressValue (fst p - startTimeRef s) \<and> 120 < fst p - lastProgressUpdate s)
   \<and> sorted_wrt (\<lambda>a b. 120 < fst b - fst a) (publications evs s)"
proof (induction evs arbitrary: s)
  case Nil
  show ?case by simp
next
  case (Cons ev evs)
  let ?s' = "step ev s"
  note T = step_publish [of ev s]
  note IH = Cons.IH [of ?s']
  show ?case
  proof (cases "lastProgressUpdate ?s' \<noteq> lastProgressUpdate s")
    case True
    then have pub: "lastProgressUpdate ?s' = fst ev" "120 < fst ev - lastProgressUpdate s"
      "progress ?s' = progressValue (fst ev - startTimeRef s)"
      using T by auto
    have eq: "publications (ev # evs) s = (fst ev, progress ?s') # publications evs ?s'"
      using True by (simp add: Let_def)
    show ?thesis unfolding eq using IH T pub by auto
  next
    case False
    then have eq: "publications (ev # evs) s = publications evs ?s'"
      by (simp add: Let_def)
    show ?thesis unfolding eq using IH T False by auto
  qed
qed

text \<open>
  C2. Every frame computes the progress fraction \<open>min elapsed 30000 / 30000\<close>, which
  does not decrease when the elapsed time grows, and publishes it with \<open>setProgress\<close>
  only when more than 120 ms have passed since the last publication. So, for any
  schedule \<open>evs\<close> of timers and frames from any state: every published value is
  \<open>min t 30000 / 30000\<close> for the elapsed time \<open>t\<close> of its frame, the published values
  never decrease, and any two publications are more than 120 ms apart (the first one
  more than 120 ms after the last publication before these frames).
\<close>

theorem progress_published_throttled:
  "(\<forall>p \<in> set (publications evs s). snd p = min (fst p - startTimeRef s) 30000 / 30000)
   \<and> sorted (map snd (publications evs s))
   \<and> sorted_wrt (\<lambda>a b. 120 < fst b - fst a) (publications evs s)
   \<and> (\<forall>p \<in> set (publications evs s). 120 < fst p - lastProgressUpdate s)
   \<and> progress (draw now s) =
       (if 120 < now - lastProgressUpdate s then min (now - startTimeRef s) 30000 / 30000
        else progress s)
   \<and> (\<forall>e. progressValue e = min e 30000 / 30000)
   \<and> (\<forall>e e'. e \<le> e' \<longrightarrow> progressValue e \<le> progressValue e')"
proof -
  note P = publications_props [of evs s]
  have v: "\<forall>p \<in> set (publications evs s). snd p = min (fst p - startTimeRef s) 30000 / 30000"
    using P by (simp add: progressValue_eq)
  have gap: "sorted_wrt (\<lambda>a b. 120 < fst b - fst a) (publications evs s)"
    using P by blast
  have "sorted_wrt (\<lambda>a b. snd a \<le> snd b) (publications evs s)"
  proof (rule sorted_wrt_mono_rel [OF _ gap])
    fix a b
    assume a: "a \<in> set (publications evs s)" and b: "b \<in> set (publications evs s)"
      and g: "120 < fst b - fst a"
    have "fst a - startTimeRef s \<le> fst b - startTimeRef s" using g by simp
    then have "progressValue (fst a - startTimeRef s) \<le> progressValue (fst b - startTimeRef s)"
      by (rule progressValue_mono)
    then show "snd a \<le> snd b" using P a b by simp
  qed
  then have mono: "sorted (map snd (publications evs s))"
    by (simp add: sorted_wrt_map)
  have d: "progress (draw now s) =
       (if 120 < now - lastProgressUpdate s then min (now - startTimeRef s) 30000 / 30000
        else progress s)"
    by (simp add: draw_publish progressValue_eq)
  have m: "\<forall>e e'. e \<le> e' \<longrightarrow> progressValue e \<le> progressValue e'"
    using progressValue_mono by blast
  show ?thesis using v mono gap P d m progressValue_eq by blast
qed

theorem progress_published_throttled_witness:
  "publications [(1000, TimerTask), (1010, FrameTask), (1020, FrameTask), (1200, FrameTask)]
       (runKeyEffect 1005 (beginStory 1000 mounted))
     = [(1010, 1 / 6000), (1200, 13 / 2000)]
   \<and> (1010, 1 / 6000) \<in> set (publications
       [(1000, TimerTask), (1010, FrameTask), (1020, FrameTask), (1200, FrameTask)]
       (runKeyEffect 1005 (beginStory 1000 mounted)))
   \<and> 1 / 6000 = min (1010 - startTimeRef (runKeyEffect 1005 (beginStory 1000 mounted))) 30000 / 30000
   \<and> sorted (map snd (publications
       [(1000, TimerTask), (1010, FrameTask), (1020, FrameTask), (1200, FrameTask)]
       (runKeyEffect 1005 (beginStory 1000 mounted))))
   \<and> (120::real) < 1200 - 1010"
proof -
  have e: "publications [(1000, TimerTask), (1010, FrameTask), (1020, FrameTask), (1200, FrameTask)]
       (runKeyEffect 1005 (beginStory 1000 mounted))
     = [(1010, 1 / 6000), (1200, 13 / 2000)]"
    by code_simp
  show ?thesis
    using progress_published_throttled
      [of "[(1000, TimerTask), (1010, FrameTask), (1020, FrameTask), (1200, FrameTask)]"
          "runKeyEffect 1005 (beginStory 1000 mounted)" 0]
    unfolding e by simp
qed

section \<open>The phase of a run\<close>

lemma scheduled_split_index:
  "scheduled T0 k = fired @ t # rest \<Longrightarrow> cb t = SetPhase p \<Longrightarrow>
     phaseIndex (afterTimers Intro fired) \<le> phaseIndex p"
  by (auto simp: scheduled_def Cons_eq_append_conv afterTimers_def)

lemma scheduled_split_last:
  "scheduled T0 k = fired @ [t] \<Longrightarrow> cb t = Finish"
  by (auto simp: scheduled_def Cons_eq_append_conv)



lemma inOrder_suffix: "inOrder (xs @ ys) \<Longrightarrow> inOrder ys"
  by (simp add: inOrder_def sorted_wrt_append)

lemma inOrder_sorted:
  assumes "inOrder ts"
  shows "sorted_wrt (\<lambda>a b. due a \<le> due b) ts"
  using assms unfolding inOrder_def by (rule sorted_wrt_mono_rel [rotated]) simp

lemma runInv_cong:
  "phase s' = phase s \<Longrightarrow> phaseRef s' = phaseRef s \<Longrightarrow> isComplete s' = isComplete s \<Longrightarrow>
   timers s' = timers s \<Longrightarrow> timeoutsRef s' = timeoutsRef s \<Longrightarrow>
     runInv T0 k bound s' = runInv T0 k bound s"
  by (simp add: runInv_def)

lemma runInv_start:
  assumes "tracked s"
  shows "runInv T0 (nextTimer s) bound (beginStory T0 s)"
proof -
  note B = beginStory_fields [OF assms, of T0]
  have "scheduled T0 (nextTimer s) = [] @ scheduled T0 (nextTimer s)" by simp
  moreover have "scheduled T0 (nextTimer s) \<noteq> []" by (simp add: scheduled_def)
  ultimately show ?thesis unfolding runInv_def using B
    by (intro exI [where x = "[]"]  exI [where x = "scheduled T0 (nextTimer s)"])
      (simp add: afterTimers_def)
qed


lemma runInv_runNextTimer:
  assumes "runInv T0 k bound s" and "n \<le> bound"
  shows "runInv T0 k bound (runNextTimer n s)
       \<and> phaseIndex (phase s) \<le> phaseIndex (phase (runNextTimer n s))"
proof -
  from assms(1) obtain fired pending where
    sp: "scheduled T0 k = fired @ pending"
    and ph: "phase s = afterTimers Intro fired" "phaseRef s = phase s"
    and du: "list_all (\<lambda>t. due t \<le> bound) fired"
    and st: "if isComplete s then timers s = []
             else pending \<noteq> [] \<and> timers s = pending \<and> timeoutsRef s = map tid (scheduled T0 k)"
    unfolding runInv_def by blast
  show ?thesis
  proof (cases "isComplete s")
    case True
    then have "timers s = []" using st by simp
    then have "runNextTimer n s = s" by (simp add: runNextTimer_def nextDue_Nil)
    then show ?thesis using assms(1) by simp
  next
    case False
    then obtain t rest where pend: "pending = t # rest" and tm: "timers s = t # rest"
      and tr: "timeoutsRef s = map tid (scheduled T0 k)"
      using st by (cases pending) auto
    have ord: "inOrder (t # rest)"
      using inOrder_scheduled [of T0 k] unfolding sp pend by (rule inOrder_suffix)
    have nd: "nextDue n (timers s) = (if due t \<le> n then Some t else None)"
      unfolding tm using inOrder_sorted [OF ord] by (rule nextDue_sorted)
    show ?thesis
    proof (cases "due t \<le> n")
      case late: False
      then have "runNextTimer n s = s" using nd by (simp add: runNextTimer_def)
      then show ?thesis using assms(1) by simp
    next
      case True
      have rn: "runNextTimer n s = runTimer t s" using nd True by (simp add: runNextTimer_def)
      have hd: "\<forall>u \<in> set rest. tid t \<noteq> tid u \<and> cb t \<noteq> Finish"
        using ord by (simp add: inOrder_def)
      then have "\<forall>u \<in> set rest. tid u \<noteq> tid t" by fastforce
      then have "filter (\<lambda>u. tid u \<noteq> tid t) rest = rest" by (intro filter_True)
      then have flt: "filter (\<lambda>u. tid u \<noteq> tid t) (timers s) = rest" using tm by simp
      have sp': "scheduled T0 k = (fired @ [t]) @ rest" using sp pend by simp
      have du': "list_all (\<lambda>t. due t \<le> bound) (fired @ [t])"
        using du True assms(2) by simp
      show ?thesis
      proof (cases "cb t")
        case (SetPhase p)
        have "rest \<noteq> []"
        proof
          assume "rest = []"
          then have "cb t = Finish" using sp pend scheduled_split_last by blast
          then show False using SetPhase by simp
        qed
        moreover have "afterTimers Intro (fired @ [t]) = p"
          using SetPhase by (simp add: afterTimers_def)
        ultimately have "runInv T0 k bound (runTimer t s)"
          unfolding runInv_def using sp' du' False flt tr
          by (intro exI [where x = "fired @ [t]"] exI [where x = rest])
            (simp add: runTimer_SetPhase [OF SetPhase])
        moreover have "phaseIndex (phase s) \<le> phaseIndex (phase (runTimer t s))"
          using scheduled_split_index [of T0 k fired t rest p] sp pend SetPhase ph
          by (simp add: runTimer_SetPhase [OF SetPhase])
        ultimately show ?thesis unfolding rn by simp
      next
        case Finish
        then have r: "rest = []" using hd by (cases rest) auto
        have "afterTimers Intro (fired @ [t]) = afterTimers Intro fired"
          using Finish by (simp add: afterTimers_def)
        then have "runInv T0 k bound (runTimer t s)"
          unfolding runInv_def using sp' du' False flt r ph
          by (intro exI [where x = "fired @ [t]"] exI [where x = rest])
            (simp add: runTimer_Finish [OF Finish])
        moreover have "phase (runTimer t s) = phase s"
          using False by (simp add: runTimer_Finish [OF Finish])
        ultimately show ?thesis unfolding rn by simp
      qed
    qed
  qed
qed

lemma runInv_draw:
  assumes "runInv T0 k bound s"
  shows "runInv T0 k bound (draw n (cancelAnimationFrame h s))
       \<and> phase (draw n (cancelAnimationFrame h s)) = phase s"
proof -
  let ?c = "cancelAnimationFrame h s"
  have "runInv T0 k bound ?c = runInv T0 k bound s"
    by (rule runInv_cong) (simp_all add: cancelAnimationFrame_def)
  then have c: "runInv T0 k bound ?c" "phase ?c = phase s"
    using assms by (simp_all add: cancelAnimationFrame_def)
  from c(1) obtain fired pending where
    sp: "scheduled T0 k = fired @ pending"
    and ph: "phase ?c = afterTimers Intro fired" "phaseRef ?c = phase ?c"
    and du: "list_all (\<lambda>t. due t \<le> bound) fired"
    and st: "if isComplete ?c then timers ?c = []
             else pending \<noteq> [] \<and> timers ?c = pending \<and> timeoutsRef ?c = map tid (scheduled T0 k)"
    unfolding runInv_def by blast
  have cl: "filter (\<lambda>t. tid t \<notin> set (timeoutsRef ?c)) (timers ?c) = []"
  proof (cases "isComplete ?c")
    case True
    then show ?thesis using st by simp
  next
    case False
    then have "timers ?c = pending" "timeoutsRef ?c = map tid (fired @ pending)"
      using st sp by simp_all
    then show ?thesis by (auto simp: filter_empty_conv)
  qed
  have "runInv T0 k bound (draw n ?c)"
    unfolding runInv_def using sp ph du st cl
    by (intro exI [where x = fired] exI [where x = pending]) (simp add: draw_eq Let_def)
  moreover have "phase (draw n ?c) = phase ?c" by (simp add: draw_eq Let_def)
  ultimately show ?thesis using c(2) by simp
qed

lemma runInv_runCallbacks:
  assumes "runInv T0 k bound s"
  shows "runInv T0 k bound (runCallbacks n hs s) \<and> phase (runCallbacks n hs s) = phase s"
  using assms
proof (induction hs arbitrary: s)
  case Nil
  then show ?case by simp
next
  case (Cons h hs)
  let ?s1 = "if h \<in> set (frames s) then draw n (cancelAnimationFrame h s) else s"
  have "runInv T0 k bound ?s1 \<and> phase ?s1 = phase s"
    using runInv_draw [OF Cons.prems] Cons.prems by simp
  then show ?case using Cons.IH [of ?s1] by simp
qed

lemma runInv_step:
  assumes "runInv T0 k bound s" and "fst ev \<le> bound"
  shows "runInv T0 k bound (step ev s) \<and> phaseIndex (phase s) \<le> phaseIndex (phase (step ev s))"
proof (cases ev)
  case (Pair n e)
  show ?thesis
  proof (cases e)
    case TimerTask
    then show ?thesis using Pair runInv_runNextTimer [OF assms(1), of n] assms(2) by simp
  next
    case FrameTask
    then show ?thesis using Pair runInv_runCallbacks [OF assms(1), of n "frames s"]
      by (simp add: runFrame_def)
  qed
qed

lemma runInv_runTasks:
  assumes "runInv T0 k bound s" and "\<forall>ev \<in> set evs. fst ev \<le> bound"
  shows "runInv T0 k bound (runTasks evs s)
       \<and> phaseIndex (phase s) \<le> phaseIndex (phase (runTasks evs s))"
  using assms
proof (induction evs arbitrary: s)
  case Nil
  then show ?case by simp
next
  case (Cons ev evs)
  have S: "runInv T0 k bound (step ev s) \<and> phaseIndex (phase s) \<le> phaseIndex (phase (step ev s))"
    using Cons.prems by (intro runInv_step) auto
  then have "runInv T0 k bound (runTasks evs (step ev s))
       \<and> phaseIndex (phase (step ev s)) \<le> phaseIndex (phase (runTasks evs (step ev s)))"
    using Cons.prems(2) by (intro Cons.IH) auto
  then show ?case using S by auto
qed

lemma runKeyEffect_keeps:
  "phase (runKeyEffect T1 s) = phase s \<and> phaseRef (runKeyEffect T1 s) = phaseRef s
   \<and> isComplete (runKeyEffect T1 s) = isComplete s \<and> timers (runKeyEffect T1 s) = timers s
   \<and> timeoutsRef (runKeyEffect T1 s) = timeoutsRef s \<and> started (runKeyEffect T1 s) = started s
   \<and> contexts (runKeyEffect T1 s) = contexts s \<and> audioStateRef (runKeyEffect T1 s) = audioStateRef s
   \<and> nextContext (runKeyEffect T1 s) = nextContext s \<and> nextTimer (runKeyEffect T1 s) = nextTimer s"
  by (simp add: runKeyEffect_def Let_def requestAnimationFrame_def runKeyCleanup_def
      cancelAnimationFrame_def split: option.splits)

lemma runInv_runKeyEffect:
  assumes "runInv T0 k bound s"
  shows "runInv T0 k bound (runKeyEffect T1 s)"
proof -
  have "runInv T0 k bound (runKeyEffect T1 s) = runInv T0 k bound s"
    by (rule runInv_cong) (simp_all add: runKeyEffect_keeps)
  then show ?thesis using assms by simp
qed

lemma runTasks_append: "runTasks (xs @ ys) s = runTasks ys (runTasks xs s)"
  by (induction xs arbitrary: s) simp_all

lemma runInv_run:
  assumes "tracked s"
    and "\<forall>ev \<in> set evs1. fst ev \<le> bound" and "\<forall>ev \<in> set evs2. fst ev \<le> bound"
  shows "runInv begun (nextTimer s) bound
           (runTasks evs2 (runKeyEffect effect (runTasks evs1 (beginStory begun s))))
    \<and> phaseIndex (phase (beginStory begun s))
           \<le> phaseIndex (phase (runTasks evs1 (beginStory begun s)))
    \<and> phaseIndex (phase (runTasks evs1 (beginStory begun s)))
           \<le> phaseIndex (phase (runTasks evs2 (runKeyEffect effect (runTasks evs1 (beginStory begun s)))))"
proof -
  let ?b = "beginStory begun s"
  have b: "runInv begun (nextTimer s) bound ?b" using assms(1) by (rule runInv_start)
  note R1 = runInv_runTasks [OF b assms(2)]
  from R1 have i1: "runInv begun (nextTimer s) bound (runTasks evs1 ?b)" by (rule conjunct1)
  have i2: "runInv begun (nextTimer s) bound (runKeyEffect effect (runTasks evs1 ?b))"
    using i1 by (rule runInv_runKeyEffect)
  note R2 = runInv_runTasks [OF i2 assms(3)]
  have a: "runInv begun (nextTimer s) bound (runTasks evs2 (runKeyEffect effect (runTasks evs1 ?b)))"
    using R2 by (rule conjunct1)
  have c: "phaseIndex (phase ?b) \<le> phaseIndex (phase (runTasks evs1 ?b))"
    using R1 by (rule conjunct2)
  have d: "phaseIndex (phase (runTasks evs1 ?b))
           \<le> phaseIndex (phase (runTasks evs2 (runKeyEffect effect (runTasks evs1 ?b))))"
    using R2 by (simp add: runKeyEffect_keeps)
  show ?thesis using a c d by (intro conjI)
qed





section \<open>Completion of a run\<close>

lemma runTimer_timers_subset: "set (timers (runTimer t s)) \<subseteq> set (timers s)"
  by (cases "cb t") (auto simp: runTimer_SetPhase runTimer_Finish)

lemma runTimer_isComplete_mono: "isComplete s \<Longrightarrow> isComplete (runTimer t s)"
  by (cases "cb t") (simp_all add: runTimer_SetPhase runTimer_Finish)

lemma fireDue_isComplete_mono: "isComplete s \<Longrightarrow> isComplete (fireDue now s)"
proof (induction now s rule: fireDue.induct)
  case (1 now s)
  show ?case
  proof (cases "nextDue now (timers s)")
    case None
    then show ?thesis using "1.prems" by (simp add: fireDue_None)
  next
    case (Some t)
    have "isComplete (runTimer t s)" using "1.prems" by (rule runTimer_isComplete_mono)
    then show ?thesis using "1.IH" [OF Some] by (simp add: fireDue_Some [OF Some])
  qed
qed

lemma runNextTimer_complete:
  assumes "\<forall>t \<in> set (timers s). cb t = Finish \<longrightarrow> finish \<le> due t"
  shows "(isComplete (runNextTimer n s) \<longrightarrow> isComplete s \<or> finish \<le> n)
       \<and> (isComplete s \<longrightarrow> isComplete (runNextTimer n s))
       \<and> set (timers (runNextTimer n s)) \<subseteq> set (timers s)"
proof (cases "nextDue n (timers s)")
  case None
  then show ?thesis by (simp add: runNextTimer_def)
next
  case (Some t)
  then have t: "t \<in> set (timers s)" "due t \<le> n" using nextDue_SomeD by blast+
  have rn: "runNextTimer n s = runTimer t s" using Some by (simp add: runNextTimer_def)
  have "isComplete (runTimer t s) \<longrightarrow> isComplete s \<or> finish \<le> n"
  proof (cases "cb t")
    case (SetPhase p)
    then show ?thesis by (simp add: runTimer_SetPhase)
  next
    case Finish
    then have "finish \<le> due t" using assms t(1) by blast
    then show ?thesis using t(2) by simp
  qed
  then show ?thesis
    unfolding rn using runTimer_timers_subset [of t s] runTimer_isComplete_mono [of s t] by blast
qed

lemma runCallbacks_complete:
  "(isComplete (runCallbacks n hs s) \<longrightarrow> isComplete s \<or> STORY_DURATION \<le> n - startTimeRef s)
   \<and> (isComplete s \<longrightarrow> isComplete (runCallbacks n hs s))
   \<and> set (timers (runCallbacks n hs s)) \<subseteq> set (timers s)
   \<and> startTimeRef (runCallbacks n hs s) = startTimeRef s"
proof (induction hs arbitrary: s)
  case Nil
  show ?case by simp
next
  case (Cons h hs)
  let ?s1 = "if h \<in> set (frames s) then draw n (cancelAnimationFrame h s) else s"
  have s1: "(isComplete ?s1 \<longrightarrow> isComplete s \<or> STORY_DURATION \<le> n - startTimeRef s)
    \<and> (isComplete s \<longrightarrow> isComplete ?s1)
    \<and> set (timers ?s1) \<subseteq> set (timers s) \<and> startTimeRef ?s1 = startTimeRef s"
    by (auto simp: draw_eq Let_def cancelAnimationFrame_def)
  show ?case using Cons.IH [of ?s1] s1 by auto
qed

lemma step_complete:
  assumes "\<forall>t \<in> set (timers s). cb t = Finish \<longrightarrow> finish \<le> due t"
  shows "(isComplete (step ev s) \<longrightarrow>
            isComplete s \<or> (snd ev = FrameTask \<and> STORY_DURATION \<le> fst ev - startTimeRef s)
            \<or> (snd ev = TimerTask \<and> finish \<le> fst ev))
       \<and> (isComplete s \<longrightarrow> isComplete (step ev s))
       \<and> set (timers (step ev s)) \<subseteq> set (timers s)
       \<and> startTimeRef (step ev s) = startTimeRef s"
proof (cases ev)
  case (Pair n e)
  show ?thesis
  proof (cases e)
    case TimerTask
    then show ?thesis
      using Pair runNextTimer_complete [OF assms, of n] runNextTimer_unchanged [of n s] by simp
  next
    case FrameTask
    then show ?thesis
      using Pair runCallbacks_complete [of n "frames s" s] by (simp add: runFrame_def)
  qed
qed

lemma runTasks_complete:
  assumes "\<forall>t \<in> set (timers s). cb t = Finish \<longrightarrow> finish \<le> due t"
  shows "(isComplete (runTasks evs s) \<longrightarrow>
            isComplete s
            \<or> (\<exists>ev \<in> set evs. snd ev = FrameTask \<and> STORY_DURATION \<le> fst ev - startTimeRef s)
            \<or> (\<exists>ev \<in> set evs. snd ev = TimerTask \<and> finish \<le> fst ev))
       \<and> (isComplete s \<longrightarrow> isComplete (runTasks evs s))
       \<and> set (timers (runTasks evs s)) \<subseteq> set (timers s)
       \<and> startTimeRef (runTasks evs s) = startTimeRef s"
  using assms
proof (induction evs arbitrary: s)
  case Nil
  show ?case by simp
next
  case (Cons ev evs)
  note S = step_complete [OF Cons.prems, of ev]
  have "\<forall>t \<in> set (timers (step ev s)). cb t = Finish \<longrightarrow> finish \<le> due t"
    using Cons.prems S by blast
  note IH = Cons.IH [OF this]
  show ?case using IH S by auto
qed

lemma frames_step:
  assumes "length (frames s) \<le> 1" and "frames s = [] \<longrightarrow> isComplete s"
  shows "length (frames (step ev s)) \<le> 1
       \<and> (frames (step ev s) = [] \<longrightarrow> isComplete (step ev s))
       \<and> (frames (step ev s) = [] \<longleftrightarrow>
            frames s = [] \<or> (snd ev = FrameTask \<and> STORY_DURATION \<le> fst ev - startTimeRef s))
       \<and> startTimeRef (step ev s) = startTimeRef s"
proof (cases ev)
  case (Pair n e)
  show ?thesis
  proof (cases e)
    case TimerTask
    have "isComplete s \<longrightarrow> isComplete (runNextTimer n s)"
      using runTimer_isComplete_mono by (simp add: runNextTimer_def split: option.splits)
    then show ?thesis
      using Pair TimerTask assms runNextTimer_unchanged [of n s] by simp
  next
    case FrameTask
    show ?thesis
    proof (cases "frames s")
      case Nil
      then show ?thesis using Pair FrameTask assms by (simp add: runFrame_def)
    next
      case (Cons f fs)
      then have fr: "frames s = [f]" using assms(1) by simp
      have "runFrame n s = draw n (cancelAnimationFrame f s)"
        using fr by (simp add: runFrame_def)
      then show ?thesis
        using Pair FrameTask fr by (simp add: draw_fields cancelAnimationFrame_def)
    qed
  qed
qed

lemma frames_runTasks:
  assumes "length (frames s) \<le> 1" and "frames s = [] \<longrightarrow> isComplete s"
  shows "length (frames (runTasks evs s)) \<le> 1
       \<and> (frames (runTasks evs s) = [] \<longrightarrow> isComplete (runTasks evs s))
       \<and> (frames (runTasks evs s) = [] \<longleftrightarrow>
            frames s = []
            \<or> (\<exists>ev \<in> set evs. snd ev = FrameTask \<and> STORY_DURATION \<le> fst ev - startTimeRef s))"
  using assms
proof (induction evs arbitrary: s)
  case Nil
  then show ?case by simp
next
  case (Cons ev evs)
  note S = frames_step [OF Cons.prems, of ev]
  from S have a: "length (frames (step ev s)) \<le> 1" by (rule conjunct1)
  from S have b: "frames (step ev s) = [] \<longrightarrow> isComplete (step ev s)"
    by (elim conjE)
  note IH = Cons.IH [OF a b]
  show ?case using IH S by auto
qed

lemma tracked_cleanup_frames: "tracked s \<Longrightarrow> frames (runKeyCleanup s) = []"
proof (cases "animationRef s")
  case None
  assume "tracked s"
  then have "frames s = []" using None by (cases "frames s") (simp_all add: tracked_def)
  then show ?thesis using None by (simp add: runKeyCleanup_def)
next
  case (Some h)
  assume "tracked s"
  then have all: "\<forall>f \<in> set (frames s). f = h \<and> f \<noteq> 0"
    using Some by (auto simp: tracked_def list_all_iff)
  show ?thesis
  proof (cases "h = 0")
    case True
    then have "frames s = []" using all by (cases "frames s") auto
    then show ?thesis using Some True by (simp add: runKeyCleanup_def)
  next
    case False
    have "removeAll h (frames s) = []" using all by (auto simp: removeAll_filter_not_eq filter_empty_conv)
    then show ?thesis using Some False by (simp add: runKeyCleanup_def cancelAnimationFrame_def)
  qed
qed

lemma tracked_beginStory:
  assumes "tracked s"
  shows "tracked (beginStory T0 s)"
proof -
  have c: "(case audioStateRef s of None \<Rightarrow> contexts s | Some c \<Rightarrow> removeAll c (contexts s)) = []"
  proof (cases "audioStateRef s")
    case None
    then show ?thesis using assms by (cases "contexts s") (simp_all add: tracked_def)
  next
    case (Some c)
    then have "\<forall>x \<in> set (contexts s). x = c" using assms by (auto simp: tracked_def list_all_iff)
    then have "removeAll c (contexts s) = []"
      by (auto simp: removeAll_filter_not_eq filter_empty_conv)
    then show ?thesis using Some by simp
  qed
  show ?thesis
    using assms tracked_timers_cleared [OF assms]
    by (simp add: beginStory_eq tracked_def c scheduled_def)
qed


lemma tracked_runTimer:
  assumes "tracked s"
  shows "tracked (runTimer t s)"
proof (cases "cb t")
  case (SetPhase p)
  show ?thesis using assms by (simp add: runTimer_SetPhase [OF SetPhase] tracked_def list_all_iff)
next
  case Finish
  have "filter (\<lambda>u. tid u \<notin> set (timeoutsRef s)) (filter (\<lambda>u. tid u \<noteq> tid t) (timers s)) = []"
    using assms by (auto simp: tracked_def list_all_iff filter_empty_conv)
  then show ?thesis using assms
    by (simp add: runTimer_Finish [OF Finish] tracked_def list_all_iff)
qed

lemma tracked_fireDue: "tracked s \<Longrightarrow> tracked (fireDue now s)"
proof (induction now s rule: fireDue.induct)
  case (1 now s)
  show ?case
  proof (cases "nextDue now (timers s)")
    case None
    then show ?thesis using "1.prems" by (simp add: fireDue_None)
  next
    case (Some t)
    have "tracked (runTimer t s)" using "1.prems" by (rule tracked_runTimer)
    then show ?thesis using "1.IH" [OF Some] by (simp add: fireDue_Some [OF Some])
  qed
qed

lemma tracked_draw:
  assumes "tracked s" and "h \<in> set (frames s)"
  shows "tracked (draw n (cancelAnimationFrame h s))"
proof -
  have "\<forall>f \<in> set (frames s). animationRef s = Some f"
    using assms(1) by (simp add: tracked_def list_all_iff)
  then have "\<forall>f \<in> set (frames s). f = h"
    using assms(2) by (metis option.inject)
  then have fr: "removeAll h (frames s) = []"
    by (auto simp: removeAll_filter_not_eq filter_empty_conv)
  have cl: "filter (\<lambda>t. tid t \<notin> set (timeoutsRef s)) (timers s) = []"
    using assms(1) by (rule tracked_timers_cleared)
  show ?thesis
    using assms(1) fr cl
    by (simp add: draw_eq Let_def cancelAnimationFrame_def tracked_def list_all_iff)
qed

lemma tracked_runCallbacks: "tracked s \<Longrightarrow> tracked (runCallbacks n hs s)"
proof (induction hs arbitrary: s)
  case Nil
  then show ?case by simp
next
  case (Cons h hs)
  have "tracked (if h \<in> set (frames s) then draw n (cancelAnimationFrame h s) else s)"
    using Cons.prems tracked_draw by simp
  then show ?case using Cons.IH by simp
qed

lemma tracked_step: "tracked s \<Longrightarrow> tracked (step ev s)"
proof (cases ev)
  case (Pair n e)
  assume tr: "tracked s"
  show ?thesis
  proof (cases e)
    case TimerTask
    then show ?thesis using Pair tr tracked_runTimer
      by (simp add: runNextTimer_def split: option.splits)
  next
    case FrameTask
    then show ?thesis using Pair tr tracked_runCallbacks by (simp add: runFrame_def)
  qed
qed

lemma tracked_runTasks: "tracked s \<Longrightarrow> tracked (runTasks evs s)"
  by (induction evs arbitrary: s) (simp_all add: tracked_step)



lemma draw_runKey: "runKey (draw n s) = runKey s \<and> nextTimer (draw n s) = nextTimer s"
  by (simp add: draw_eq Let_def)

lemma runCallbacks_runKey:
  "runKey (runCallbacks n hs s) = runKey s \<and> nextTimer (runCallbacks n hs s) = nextTimer s"
proof (induction hs arbitrary: s)
  case Nil
  show ?case by simp
next
  case (Cons h hs)
  show ?case using Cons.IH [of "if h \<in> set (frames s) then draw n (cancelAnimationFrame h s) else s"]
    by (simp add: draw_runKey cancelAnimationFrame_def)
qed

lemma step_runKey: "runKey (step ev s) = runKey s \<and> nextTimer (step ev s) = nextTimer s"
proof (cases ev)
  case (Pair n e)
  then show ?thesis
    using runNextTimer_unchanged [of n s] runCallbacks_runKey [of n "frames s" s]
    by (cases e) (simp_all add: runFrame_def)
qed

lemma runTasks_runKey:
  "runKey (runTasks evs s) = runKey s \<and> nextTimer (runTasks evs s) = nextTimer s"
  by (induction evs arbitrary: s) (simp_all add: step_runKey)

lemma frames_effect:
  assumes "tracked x" and "runKey x \<noteq> 0"
  shows "frames (runKeyEffect T1 x) = [nextFrame x]"
  using runKeyEffect_fields [OF assms(2), of T1] tracked_cleanup_frames [OF assms(1)] by simp

lemma scheduled_finish_pending:
  "scheduled T0 k = fired @ pending \<Longrightarrow> pending \<noteq> [] \<Longrightarrow>
     \<exists>t \<in> set pending. cb t = Finish \<and> due t = T0 + (STORY_DURATION + 60)"
  by (auto simp: scheduled_def Cons_eq_append_conv STORY_DURATION_def)

lemma scheduled_finish_due:
  "\<forall>t \<in> set (scheduled T0 k). cb t = Finish \<longrightarrow> T0 + (STORY_DURATION + 60) \<le> due t"
  by (simp add: scheduled_def STORY_DURATION_def)


lemma step_isComplete_mono: "isComplete s \<Longrightarrow> isComplete (step ev s)"
proof (cases ev)
  case (Pair n e)
  assume ic: "isComplete s"
  show ?thesis
  proof (cases e)
    case TimerTask
    then show ?thesis using Pair ic runTimer_isComplete_mono
      by (simp add: runNextTimer_def split: option.splits)
  next
    case FrameTask
    then show ?thesis using Pair ic runCallbacks_complete [of n "frames s" s]
      by (simp add: runFrame_def)
  qed
qed

lemma runTasks_isComplete_mono: "isComplete s \<Longrightarrow> isComplete (runTasks evs s)"
  by (induction evs arbitrary: s) (simp_all add: step_isComplete_mono)

lemma beginStory_startTimeRef: "startTimeRef (beginStory T0 s) = startTimeRef s"
  by (simp add: beginStory_eq)

lemma completion_run:
  assumes "tracked s"
  shows "length (frames (runTasks evs2 (runKeyEffect effect (runTasks evs1 (beginStory begun s))))) \<le> 1
    \<and> (frames (runTasks evs2 (runKeyEffect effect (runTasks evs1 (beginStory begun s)))) = []
          \<longrightarrow> isComplete (runTasks evs2 (runKeyEffect effect (runTasks evs1 (beginStory begun s)))))
    \<and> (frames (runTasks evs2 (runKeyEffect effect (runTasks evs1 (beginStory begun s)))) = [] \<longleftrightarrow>
          (\<exists>ev \<in> set evs2. snd ev = FrameTask \<and> STORY_DURATION \<le> fst ev - effect))
    \<and> (isComplete (runTasks evs2 (runKeyEffect effect (runTasks evs1 (beginStory begun s)))) \<longrightarrow>
          (\<exists>ev \<in> set evs2. snd ev = FrameTask \<and> STORY_DURATION \<le> fst ev - effect)
          \<or> (\<exists>ev \<in> set (evs1 @ evs2). snd ev = TimerTask \<and> begun + (STORY_DURATION + 60) \<le> fst ev)
          \<or> (\<exists>ev \<in> set evs1. snd ev = FrameTask \<and> STORY_DURATION \<le> fst ev - startTimeRef s))"
proof -
  let ?b = "beginStory begun s"
  let ?x = "runTasks evs1 ?b"
  let ?e = "runKeyEffect effect ?x"
  let ?R = "runTasks evs2 ?e"
  have trx: "tracked ?x" using assms by (intro tracked_runTasks tracked_beginStory)
  have rk: "runKey ?x \<noteq> 0" using runKey_beginStory [of begun s] by (simp add: runTasks_runKey)
  note E = runKeyEffect_fields [OF rk, of effect]
  have fe: "frames ?e = [nextFrame ?x]" using trx rk by (rule frames_effect)
  have st: "startTimeRef ?e = effect" using E by (rule conjunct1)
  have len: "length (frames ?e) \<le> 1" and ne: "frames ?e = [] \<longrightarrow> isComplete ?e"
    using fe by simp_all
  note F = frames_runTasks [OF len ne, of evs2, unfolded st]
  have a: "length (frames ?R) \<le> 1" using F by (rule conjunct1)
  have b: "frames ?R = [] \<longrightarrow> isComplete ?R" using F by (elim conjE)
  have c: "frames ?R = [] \<longleftrightarrow>
          (\<exists>ev \<in> set evs2. snd ev = FrameTask \<and> STORY_DURATION \<le> fst ev - effect)"
    using F fe by simp
  have gb: "\<forall>t \<in> set (timers ?b). cb t = Finish \<longrightarrow> begun + (STORY_DURATION + 60) \<le> due t"
    using scheduled_finish_due [of begun "nextTimer s"] beginStory_fields(1) [OF assms, of begun]
    by simp
  note X = runTasks_complete [OF gb, of evs1]
  have nb: "\<not> isComplete ?b" using assms by (rule beginStory_fields(5))
  have x1: "isComplete ?x \<longrightarrow>
       (\<exists>ev \<in> set evs1. snd ev = FrameTask \<and> STORY_DURATION \<le> fst ev - startTimeRef s)
       \<or> (\<exists>ev \<in> set evs1. snd ev = TimerTask \<and> begun + (STORY_DURATION + 60) \<le> fst ev)"
    using X nb by (simp add: beginStory_startTimeRef)
  have x2: "set (timers ?x) \<subseteq> set (timers ?b)" using X by (elim conjE)
  have te: "timers ?e = timers ?x" and ce: "isComplete ?e = isComplete ?x"
    using E by simp_all
  have ge: "\<forall>t \<in> set (timers ?e). cb t = Finish \<longrightarrow> begun + (STORY_DURATION + 60) \<le> due t"
    unfolding te using gb x2 by blast
  note Y = runTasks_complete [OF ge, of evs2, unfolded st ce]
  have y1: "isComplete ?R \<longrightarrow> isComplete ?x
       \<or> (\<exists>ev \<in> set evs2. snd ev = FrameTask \<and> STORY_DURATION \<le> fst ev - effect)
       \<or> (\<exists>ev \<in> set evs2. snd ev = TimerTask \<and> begun + (STORY_DURATION + 60) \<le> fst ev)"
    using Y by (rule conjunct1)
  have d: "isComplete ?R \<longrightarrow>
          (\<exists>ev \<in> set evs2. snd ev = FrameTask \<and> STORY_DURATION \<le> fst ev - effect)
          \<or> (\<exists>ev \<in> set (evs1 @ evs2). snd ev = TimerTask \<and> begun + (STORY_DURATION + 60) \<le> fst ev)
          \<or> (\<exists>ev \<in> set evs1. snd ev = FrameTask \<and> STORY_DURATION \<le> fst ev - startTimeRef s)"
    using x1 y1 by auto
  from a b c d show ?thesis by (intro conjI)
qed

lemma runInv_finish:
  assumes "runInv T0 k bound s" and "T0 + (STORY_DURATION + 60) \<le> n"
  shows "isComplete (fireDue n s)"
proof (cases "isComplete s")
  case True
  then show ?thesis by (rule fireDue_isComplete_mono)
next
  case False
  then obtain fired pending where sp: "scheduled T0 k = fired @ pending"
    and pn: "pending \<noteq> []" and tp: "timers s = pending"
    using assms(1) by (auto simp: runInv_def)
  have "inOrder (fired @ pending)" using inOrder_scheduled [of T0 k] sp by simp
  then have io: "inOrder pending" by (rule inOrder_suffix)
  obtain t where "t \<in> set pending" "cb t = Finish" "due t = T0 + (STORY_DURATION + 60)"
    using scheduled_finish_pending [OF sp pn] by blast
  then have "\<exists>t \<in> set pending. cb t = Finish \<and> due t \<le> n" using assms(2) by auto
  then show ?thesis using fireDue_inOrder [OF io tp, of n] by simp
qed

lemma runInv_exists:
  assumes "tracked s"
  shows "\<exists>bound. runInv T0 (nextTimer s) bound
           (runTasks evs2 (runKeyEffect T1 (runTasks evs1 (beginStory T0 s))))"
proof -
  define bound where "bound = Max (insert 0 (fst ` set (evs1 @ evs2)))"
  have "\<forall>ev \<in> set (evs1 @ evs2). fst ev \<le> bound"
    unfolding bound_def by (auto intro!: Max_ge)
  then have b1: "\<forall>ev \<in> set evs1. fst ev \<le> bound" and b2: "\<forall>ev \<in> set evs2. fst ev \<le> bound"
    by auto
  note R = runInv_run [OF assms b1 b2, where begun = T0 and effect = T1]
  from R have "runInv T0 (nextTimer s) bound
           (runTasks evs2 (runKeyEffect T1 (runTasks evs1 (beginStory T0 s))))"
    by (rule conjunct1)
  then show ?thesis ..
qed

text \<open>
  C4, amended. A run is started by \<open>beginStory\<close> at \<open>T0\<close>, its frame loop by the effect
  of \<open>runKey\<close> at \<open>T1\<close>; timers and frames run in any order and at any times, \<open>evs1\<close>
  between the two and \<open>evs2\<close> after the effect. Then no animation frame is pending if
  and only if a frame of the loop has reached 30000 ms of elapsed time (measured from
  \<open>T1\<close>), and otherwise exactly one is; once none is pending, none is requested again.
  A frame that has reached 30000 ms sets the completion flag. The flag, false when
  \<open>beginStory\<close> returns, is set by nothing but a frame whose elapsed time has reached
  30000 ms or a timer that runs 30060 ms after \<open>T0\<close> or later (the finish timeout);
  it stays set; and it is set once the timers due 30060 ms after \<open>T0\<close> have run.
\<close>

theorem completion_by_frame_or_timeout:
  assumes "tracked s"
  shows "length (frames (runTasks evs2 (runKeyEffect T1 (runTasks evs1 (beginStory T0 s))))) \<le> 1
    \<and> (frames (runTasks evs2 (runKeyEffect T1 (runTasks evs1 (beginStory T0 s)))) = [] \<longleftrightarrow>
          (\<exists>ev \<in> set evs2. snd ev = FrameTask \<and> 30000 \<le> fst ev - T1))
    \<and> (\<forall>evs3. frames (runTasks evs2 (runKeyEffect T1 (runTasks evs1 (beginStory T0 s)))) = [] \<longrightarrow>
          frames (runTasks evs3
            (runTasks evs2 (runKeyEffect T1 (runTasks evs1 (beginStory T0 s))))) = [])
    \<and> ((\<exists>ev \<in> set evs2. snd ev = FrameTask \<and> 30000 \<le> fst ev - T1) \<longrightarrow>
          isComplete (runTasks evs2 (runKeyEffect T1 (runTasks evs1 (beginStory T0 s)))))
    \<and> \<not> isComplete (beginStory T0 s)
    \<and> (isComplete (runTasks evs2 (runKeyEffect T1 (runTasks evs1 (beginStory T0 s)))) \<longrightarrow>
          (\<exists>ev \<in> set evs2. snd ev = FrameTask \<and> 30000 \<le> fst ev - T1)
          \<or> (\<exists>ev \<in> set (evs1 @ evs2). snd ev = TimerTask \<and> T0 + 30060 \<le> fst ev)
          \<or> (\<exists>ev \<in> set evs1. snd ev = FrameTask \<and> 30000 \<le> fst ev - startTimeRef s))
    \<and> (\<forall>evs3. isComplete (runTasks evs2 (runKeyEffect T1 (runTasks evs1 (beginStory T0 s)))) \<longrightarrow>
          isComplete (runTasks evs3
            (runTasks evs2 (runKeyEffect T1 (runTasks evs1 (beginStory T0 s))))))
    \<and> (\<forall>n. T0 + 30060 \<le> n \<longrightarrow>
          isComplete (fireDue n
            (runTasks evs2 (runKeyEffect T1 (runTasks evs1 (beginStory T0 s))))))"
proof -
  let ?R = "runTasks evs2 (runKeyEffect T1 (runTasks evs1 (beginStory T0 s)))"
  note C = completion_run [OF assms, where begun = T0 and effect = T1 and ?evs1.0 = evs1
      and ?evs2.0 = evs2, unfolded STORY_DURATION_def]
  from C have a: "length (frames ?R) \<le> 1" by (rule conjunct1)
  from C have b: "frames ?R = [] \<longrightarrow> isComplete ?R" by (elim conjE)
  from C have c: "frames ?R = [] \<longleftrightarrow>
      (\<exists>ev \<in> set evs2. snd ev = FrameTask \<and> 30000 \<le> fst ev - T1)" by (elim conjE)
  from C have d: "isComplete ?R \<longrightarrow>
          (\<exists>ev \<in> set evs2. snd ev = FrameTask \<and> 30000 \<le> fst ev - T1)
          \<or> (\<exists>ev \<in> set (evs1 @ evs2). snd ev = TimerTask \<and> T0 + (30000 + 60) \<le> fst ev)
          \<or> (\<exists>ev \<in> set evs1. snd ev = FrameTask \<and> 30000 \<le> fst ev - startTimeRef s)"
    by (elim conjE)
  then have d': "isComplete ?R \<longrightarrow>
          (\<exists>ev \<in> set evs2. snd ev = FrameTask \<and> 30000 \<le> fst ev - T1)
          \<or> (\<exists>ev \<in> set (evs1 @ evs2). snd ev = TimerTask \<and> T0 + 30060 \<le> fst ev)
          \<or> (\<exists>ev \<in> set evs1. snd ev = FrameTask \<and> 30000 \<le> fst ev - startTimeRef s)"
    by simp
  have e: "(\<exists>ev \<in> set evs2. snd ev = FrameTask \<and> 30000 \<le> fst ev - T1) \<longrightarrow> isComplete ?R"
    using b c by blast
  have f: "\<forall>evs3. frames ?R = [] \<longrightarrow> frames (runTasks evs3 ?R) = []"
  proof (intro allI impI)
    fix evs3
    assume "frames ?R = []"
    then show "frames (runTasks evs3 ?R) = []"
      using frames_runTasks [OF a b, of evs3] by simp
  qed
  have g: "\<forall>evs3. isComplete ?R \<longrightarrow> isComplete (runTasks evs3 ?R)"
  proof (intro allI impI)
    fix evs3
    assume "isComplete ?R"
    then show "isComplete (runTasks evs3 ?R)" by (rule runTasks_isComplete_mono)
  qed
  have nb: "\<not> isComplete (beginStory T0 s)" using assms by (rule beginStory_fields(5))
  obtain bound where inv: "runInv T0 (nextTimer s) bound ?R"
    using runInv_exists [OF assms] by blast
  have h: "\<forall>n. T0 + 30060 \<le> n \<longrightarrow> isComplete (fireDue n ?R)"
  proof (intro allI impI)
    fix n :: real
    assume "T0 + 30060 \<le> n"
    then have "T0 + (STORY_DURATION + 60) \<le> n" by (simp add: STORY_DURATION_def)
    with inv show "isComplete (fireDue n ?R)" by (rule runInv_finish)
  qed
  from a c f e nb d' g h show ?thesis by (intro conjI)
qed

theorem completion_by_frame_or_timeout_witness:
  "frames (runTasks [(1000, TimerTask), (1010, FrameTask), (31005, FrameTask)]
      (runKeyEffect 1005 (runTasks [] (beginStory 1000 mounted)))) = []
   \<and> isComplete (runTasks [(1000, TimerTask), (1010, FrameTask), (31005, FrameTask)]
      (runKeyEffect 1005 (runTasks [] (beginStory 1000 mounted))))
   \<and> isComplete (fireDue 31060 (runTasks [(1000, TimerTask), (1010, FrameTask)]
      (runKeyEffect 1005 (runTasks [] (beginStory 1000 mounted)))))
   \<and> frames (runTasks [(1000, TimerTask), (1010, FrameTask)]
      (runKeyEffect 1005 (runTasks [] (beginStory 1000 mounted)))) \<noteq> []"
proof -
  let ?evs = "[(1000, TimerTask), (1010, FrameTask), (31005, FrameTask)] :: (real \<times> task) list"
  let ?evs' = "[(1000, TimerTask), (1010, FrameTask)] :: (real \<times> task) list"
  let ?R = "runTasks ?evs (runKeyEffect 1005 (runTasks [] (beginStory 1000 mounted)))"
  let ?R' = "runTasks ?evs' (runKeyEffect 1005 (runTasks [] (beginStory 1000 mounted)))"
  note T = completion_by_frame_or_timeout [OF tracked_mounted, where ?T0.0 = 1000
      and ?T1.0 = 1005 and ?evs1.0 = "[]" and ?evs2.0 = ?evs]
  note T' = completion_by_frame_or_timeout [OF tracked_mounted, where ?T0.0 = 1000
      and ?T1.0 = 1005 and ?evs1.0 = "[]" and ?evs2.0 = ?evs']
  have ex: "\<exists>ev \<in> set ?evs. snd ev = FrameTask \<and> 30000 \<le> fst ev - 1005" by simp
  have nex: "\<not> (\<exists>ev \<in> set ?evs'. snd ev = FrameTask \<and> 30000 \<le> fst ev - 1005)" by simp
  from T have c: "frames ?R = [] \<longleftrightarrow> (\<exists>ev \<in> set ?evs. snd ev = FrameTask \<and> 30000 \<le> fst ev - 1005)"
    by (elim conjE)
  from T have e: "(\<exists>ev \<in> set ?evs. snd ev = FrameTask \<and> 30000 \<le> fst ev - 1005) \<longrightarrow> isComplete ?R"
    by (elim conjE)
  from T' have c': "frames ?R' = [] \<longleftrightarrow> (\<exists>ev \<in> set ?evs'. snd ev = FrameTask \<and> 30000 \<le> fst ev - 1005)"
    by (elim conjE)
  from T' have h': "\<forall>n. 1000 + 30060 \<le> n \<longrightarrow> isComplete (fireDue n ?R')"
    by (elim conjE)
  have r1: "frames ?R = []" using c ex by (rule iffD2)
  have r2: "isComplete ?R" using e ex by (rule mp)
  have r3: "isComplete (fireDue 31060 ?R')" using h' [rule_format, of 31060] by simp
  have r4: "frames ?R' \<noteq> []" using c' nex by blast
  from r1 r2 r3 r4 show ?thesis by (intro conjI)
qed

text \<open>
  C4 as the specification words it: the flag becomes true exactly when the elapsed
  time reaches 30000 ms, and no frame is scheduled afterwards. The finish timeout is
  due 30060 ms after \<open>beginStory\<close>, whatever the frames do. When the frame loop starts
  100 ms after \<open>beginStory\<close>, the timeout sets the flag at an elapsed time of 29960 ms,
  and the frame drawn 1 ms later requests another frame. When the loop starts 5 ms
  after \<open>beginStory\<close> and no frame is drawn after 11000, the timeout sets the flag while
  no frame has reached 30000 ms and a frame request is pending.
\<close>

theorem completion_before_duration_counterexample:
  "isComplete (runTasks [(1000, TimerTask), (7800, TimerTask), (14600, TimerTask),
        (20800, TimerTask), (25400, TimerTask), (31000, TimerTask), (31060, TimerTask)]
      (runKeyEffect 1100 (beginStory 1000 mounted)))
   \<and> 31061 - startTimeRef (runKeyEffect 1100 (beginStory 1000 mounted)) < STORY_DURATION
   \<and> frames (runTasks [(1000, TimerTask), (7800, TimerTask), (14600, TimerTask),
        (20800, TimerTask), (25400, TimerTask), (31000, TimerTask), (31060, TimerTask),
        (31061, FrameTask)]
      (runKeyEffect 1100 (beginStory 1000 mounted))) \<noteq> []
   \<and> isComplete (runTasks [(1010, FrameTask), (11000, FrameTask), (31060, TimerTask),
        (31060, TimerTask), (31060, TimerTask), (31060, TimerTask), (31060, TimerTask),
        (31060, TimerTask), (31060, TimerTask)]
      (runKeyEffect 1005 (beginStory 1000 mounted)))
   \<and> frames (runTasks [(1010, FrameTask), (11000, FrameTask), (31060, TimerTask),
        (31060, TimerTask), (31060, TimerTask), (31060, TimerTask), (31060, TimerTask),
        (31060, TimerTask), (31060, TimerTask)]
      (runKeyEffect 1005 (beginStory 1000 mounted))) \<noteq> []"
  by code_simp

section \<open>Starting a second run\<close>


















end
